theory Spec2Isabelle
  imports Main "HOL-Library.Sublist" "HOL-Library.Multiset" "HOL-Library.List_Lexorder"
    "HOL-Library.Char_ord"
begin

section \<open>The labelled expression tree (program.d.ts)\<close>

text \<open>
  An \<^verbatim>\<open>Expression\<close> is one of nine node shapes, each carrying a \<^verbatim>\<open>label\<close>.
  JavaScript numbers are modelled as integers (labels are the integers the parser
  hands out; fractional values and NaN are outside the model). The source position
  (\<^verbatim>\<open>line\<close>, \<^verbatim>\<open>column\<close>) is carried by every node but never read by the solver
  and is left out. The field \<^verbatim>\<open>type\<close> of a node is computed by \<open>typeOf\<close>.
\<close>

datatype operator = Add | Sub | Mul | Div | Lt | Gt | Le | Ge | Eq | Ne | Or | And

datatype etype =
  TN | TTrue | TFalse | TVar | TOp operator | TIf | TFn | TFun | TApp | TLet

datatype Expression =
    NumericConstant (label: int) int
  | BooleanConstant (label: int) bool
  | VariableExpression (label: int) string
  | OperationExpression (label: int) operator Expression Expression
  | IfExpression (label: int) Expression Expression Expression
  | FnExpression (label: int) string Expression
  | FunExpression (label: int) string string Expression
  | ApplicationExpression (label: int) Expression Expression
  | LetExpression (label: int) string Expression Expression

fun typeOf :: "Expression \<Rightarrow> etype" where
  "typeOf (NumericConstant _ _) = TN"
| "typeOf (BooleanConstant _ b) = (if b then TTrue else TFalse)"
| "typeOf (VariableExpression _ _) = TVar"
| "typeOf (OperationExpression _ oper _ _) = TOp oper"
| "typeOf (IfExpression _ _ _ _) = TIf"
| "typeOf (FnExpression _ _ _) = TFn"
| "typeOf (FunExpression _ _ _ _) = TFun"
| "typeOf (ApplicationExpression _ _ _) = TApp"
| "typeOf (LetExpression _ _ _ _) = TLet"

text \<open>
  The optional fields \<^verbatim>\<open>name\<close> (of \<^verbatim>\<open>var\<close> and \<^verbatim>\<open>fun\<close> nodes) and
  \<^verbatim>\<open>variable\<close> (of \<^verbatim>\<open>fn\<close>, \<^verbatim>\<open>fun\<close> and \<^verbatim>\<open>let\<close> nodes); reading a field a
  node does not have gives \<^verbatim>\<open>undefined\<close>, here \<open>None\<close>.
\<close>

fun nameOf :: "Expression \<Rightarrow> string option" where
  "nameOf (VariableExpression _ n) = Some n"
| "nameOf (FunExpression _ n _ _) = Some n"
| "nameOf _ = None"

fun variableOf :: "Expression \<Rightarrow> string option" where
  "variableOf (FnExpression _ v _) = Some v"
| "variableOf (FunExpression _ _ v _) = Some v"
| "variableOf (LetExpression _ v _ _) = Some v"
| "variableOf _ = None"

text \<open>All nodes of a tree, in the order \<^verbatim>\<open>collectExpressions\<close> visits them.\<close>

fun nodes :: "Expression \<Rightarrow> Expression list" where
  "nodes (OperationExpression l oper a b) = OperationExpression l oper a b # nodes a @ nodes b"
| "nodes (IfExpression l c t e) = IfExpression l c t e # nodes c @ nodes t @ nodes e"
| "nodes (FnExpression l v b) = FnExpression l v b # nodes b"
| "nodes (FunExpression l n v b) = FunExpression l n v b # nodes b"
| "nodes (ApplicationExpression l c a) = ApplicationExpression l c a # nodes c @ nodes a"
| "nodes (LetExpression l v a b) = LetExpression l v a b # nodes a @ nodes b"
| "nodes e = [e]"

section \<open>Values, strings and errors\<close>

text \<open>
  A value of type \<^verbatim>\<open>string | number\<close>, used for the data of an entry and for its key.
\<close>

datatype atom = Num int | Str string

text \<open>Decimal rendering of a number inside a template string.\<close>

definition digit :: "nat \<Rightarrow> char" where
  "digit n = ''0123456789'' ! n"

fun showNat :: "nat \<Rightarrow> string" where
  "showNat n = (if n < 10 then [digit n] else showNat (n div 10) @ [digit (n mod 10)])"

declare showNat.simps [simp del]

definition showInt :: "int \<Rightarrow> string" where
  "showInt i = (if i < 0 then CHR ''-'' # showNat (nat (- i)) else showNat (nat i))"

fun showAtom :: "atom \<Rightarrow> string" where
  "showAtom (Num i) = showInt i"
| "showAtom (Str s) = s"

text \<open>
  Every failure of the solver is a thrown \<^verbatim>\<open>TypeError\<close>; the constructors name the
  throw sites (the label and the name are the ones the message quotes).
\<close>

datatype error =
    UnboundVariable int string
  | NameCollision int string
  | UnknownLabel int
  | UnknownVariable
  | UnknownReference

section \<open>Scope resolution: \<^verbatim>\<open>collectExpressions\<close>\<close>

text \<open>
  A \<^verbatim>\<open>Context\<close> is a plain object from names to labels. \<^verbatim>\<open>extendContext\<close> copies
  it with \<^verbatim>\<open>Object.fromEntries\<close>, the new names last, so a new name overrides an old
  one. Reading \<^verbatim>\<open>context[name]\<close> finds an own property first and otherwise a
  property inherited from \<^verbatim>\<open>Object.prototype\<close>, which is not a label;
  only when neither exists is the result \<^verbatim>\<open>undefined\<close> and the error thrown.
\<close>

type_synonym Context = "string \<rightharpoonup> int"

datatype binding = Declared int | Inherited string

definition objectPrototypeKeys :: "string list" where
  "objectPrototypeKeys =
     [''constructor'', ''__defineGetter__'', ''__defineSetter__'', ''hasOwnProperty'',
      ''__lookupGetter__'', ''__lookupSetter__'', ''isPrototypeOf'',
      ''propertyIsEnumerable'', ''toString'', ''valueOf'', ''__proto__'',
      ''toLocaleString'']"

definition contextGet :: "Context \<Rightarrow> string \<Rightarrow> binding option" where
  "contextGet context name =
     (case context name of
        Some l \<Rightarrow> Some (Declared l)
      | None \<Rightarrow> if name \<in> set objectPrototypeKeys then Some (Inherited name) else None)"

definition extendContext :: "Context \<Rightarrow> int \<Rightarrow> string list \<Rightarrow> Context" where
  "extendContext context l names = fold (\<lambda>name c. c(name \<mapsto> l)) names context"

text \<open>
  The three indices filled by the traversal. \<^verbatim>\<open>expressions\<close> maps a node type to
  the set of its nodes in insertion order; \<^verbatim>\<open>labelOfvariableDeclaration\<close> is keyed
  by the node object. Objects are compared by identity in the source and by
  structure here; the two agree on the nodes of one tree as long as their labels
  differ, and every node of a tree is a fresh member of its collection.
\<close>

record Index =
  expressionByLabel :: "int \<rightharpoonup> Expression"
  expressions :: "etype \<rightharpoonup> Expression list"
  labelOfvariableDeclaration :: "Expression \<rightharpoonup> binding"

definition emptyIndex :: Index where
  "emptyIndex = \<lparr> expressionByLabel = Map.empty, expressions = Map.empty,
                  labelOfvariableDeclaration = Map.empty \<rparr>"

definition register :: "Expression \<Rightarrow> Index \<Rightarrow> Index" where
  "register expression idx =
     idx\<lparr> expressions := (expressions idx)(typeOf expression \<mapsto>
            (case expressions idx (typeOf expression) of
               None \<Rightarrow> [expression]
             | Some collection \<Rightarrow> collection @ [expression])),
          expressionByLabel := (expressionByLabel idx)(label expression \<mapsto> expression) \<rparr>"

definition andThen :: "error + 'a \<Rightarrow> ('a \<Rightarrow> error + 'b) \<Rightarrow> error + 'b" where
  "andThen r f = (case r of Inl e \<Rightarrow> Inl e | Inr x \<Rightarrow> f x)"

lemma andThen_cong [fundef_cong]:
  "r = r' \<Longrightarrow> (\<And>x. r' = Inr x \<Longrightarrow> f x = f' x) \<Longrightarrow> andThen r f = andThen r' f'"
  by (auto simp: andThen_def split: sum.splits)

lemma andThen_simps [simp]:
  "andThen (Inl e) f = Inl e"
  "andThen (Inr x) f = f x"
  by (simp_all add: andThen_def)

fun collectExpressions :: "Expression \<Rightarrow> Context \<Rightarrow> Index \<Rightarrow> error + Index" where
  "collectExpressions (NumericConstant l n) context idx =
     Inr (register (NumericConstant l n) idx)"
| "collectExpressions (BooleanConstant l b) context idx =
     Inr (register (BooleanConstant l b) idx)"
| "collectExpressions (VariableExpression l name) context idx =
     (case contextGet context name of
        None \<Rightarrow> Inl (UnboundVariable l name)
      | Some b \<Rightarrow>
          Inr ((register (VariableExpression l name) idx)
                 \<lparr> labelOfvariableDeclaration :=
                     (labelOfvariableDeclaration idx)(VariableExpression l name \<mapsto> b) \<rparr>))"
| "collectExpressions (OperationExpression l oper left right) context idx =
     andThen (collectExpressions left context (register (OperationExpression l oper left right) idx))
       (collectExpressions right context)"
| "collectExpressions (IfExpression l condition thenBody elseBody) context idx =
     andThen (andThen
        (collectExpressions condition context
           (register (IfExpression l condition thenBody elseBody) idx))
        (collectExpressions thenBody context))
       (collectExpressions elseBody context)"
| "collectExpressions (FnExpression l variable body) context idx =
     collectExpressions body (extendContext context l [variable])
       (register (FnExpression l variable body) idx)"
| "collectExpressions (FunExpression l name variable body) context idx =
     (if name = variable then Inl (NameCollision l name)
      else collectExpressions body (extendContext context l [name, variable])
             (register (FunExpression l name variable body) idx))"
| "collectExpressions (ApplicationExpression l callable argument) context idx =
     andThen (collectExpressions callable context
                (register (ApplicationExpression l callable argument) idx))
       (collectExpressions argument context)"
| "collectExpressions (LetExpression l variable val body) context idx =
     andThen (collectExpressions val context (register (LetExpression l variable val body) idx))
       (collectExpressions body (extendContext context l [variable]))"

section \<open>The rule-authoring interface: \<^verbatim>\<open>label\<close> and \<^verbatim>\<open>type\<close>\<close>

definition getExpressionByLabel :: "Index \<Rightarrow> int \<Rightarrow> error + Expression" where
  "getExpressionByLabel idx l =
     (case expressionByLabel idx l of None \<Rightarrow> Inl (UnknownLabel l) | Some e \<Rightarrow> Inr e)"

text \<open>
  \<^verbatim>\<open>getExpressionsOfType\<close> is a generator function: a call returns a generator
  object, which is its own iterator. The object is modelled by the elements it has
  not yet yielded; since the indices are not written after the traversal, it does
  not matter that the source reads them only when the first element is asked for.
  \<open>iterate\<close> is a \<^verbatim>\<open>for ... of\<close> loop that runs to the end: it returns the
  elements it saw and leaves the generator exhausted.
\<close>

record Generator =
  pending :: "Expression list"

definition getExpressionsOfType :: "Index \<Rightarrow> etype list \<Rightarrow> Generator" where
  "getExpressionsOfType idx types =
     \<lparr> pending = concat (map (\<lambda>type. case expressions idx type of
                                         None \<Rightarrow> []
                                       | Some collection \<Rightarrow> collection) types) \<rparr>"

definition iterate :: "Generator \<Rightarrow> Expression list \<times> Generator" where
  "iterate g = (pending g, g\<lparr> pending := [] \<rparr>)"

section \<open>Entries, references and rules (rules.d.ts)\<close>

datatype Reference =
    Variable Expression
  | BoundVariable Expression
  | FunctionVariable Expression
  | ExpressionReference Expression

text \<open>
  The left-hand side of a \<^verbatim>\<open>Rule\<close>. A \<^verbatim>\<open>dynamic\<close> callback receives the data
  sets of its dependencies, each a list in insertion order, and is modelled as a
  pure function returning finitely many values (a callback that yields lazily while
  the sets change, or without end, is outside the model).
\<close>

datatype RuleLhs =
    Constant atom
  | Dynamic "atom list list \<Rightarrow> atom list" "Reference list"
  | Ref Reference

datatype Rule = Rule RuleLhs Reference

text \<open>
  A \<^verbatim>\<open>TranslatedRule\<close> holds the entry it writes to and an \<^verbatim>\<open>lhs\<close> that is
  either a fixed array or a getter. Entries are objects in the source; here an
  entry is named by the id under which \<^verbatim>\<open>getOrCreateEntry\<close> stored it, which is
  the only place entries are made.
\<close>

datatype Lhs =
    Fixed "atom list"
  | Computed "atom list list \<Rightarrow> atom list" "string list"
  | Live string

record TranslatedRule =
  lhs :: Lhs
  rhs :: string

text \<open>
  \<^verbatim>\<open>Entry.data\<close> is a \<^verbatim>\<open>Set\<close>: a list in insertion order. \<^verbatim>\<open>Entry.rules\<close> is a
  set of rule objects: each rule is stored with the serial number of its creation,
  which stands for its identity.
\<close>

record Entry =
  key :: atom
  data :: "atom list"
  rules :: "(nat \<times> TranslatedRule) list"

record Solver =
  entries :: "(string \<times> Entry) list"
  worklist :: "string list"
  created :: nat

definition emptySolver :: Solver where
  "emptySolver = \<lparr> entries = [], worklist = [], created = 0 \<rparr>"

text \<open>The constant \<^verbatim>\<open>id\<close> of \<^verbatim>\<open>getOrCreateEntry\<close>: category, then the key in brackets.\<close>

definition entryId :: "string \<Rightarrow> atom \<Rightarrow> string" where
  "entryId category k = category @ ''('' @ showAtom k @ '')''"

definition getOrCreateEntry :: "string \<Rightarrow> atom \<Rightarrow> Solver \<Rightarrow> string \<times> Solver" where
  "getOrCreateEntry category k s =
     (let eid = entryId category k in
      case map_of (entries s) eid of
        Some existingEntry \<Rightarrow> (eid, s)
      | None \<Rightarrow> (eid, s\<lparr> entries := entries s @ [(eid, \<lparr> key = k, data = [], rules = [] \<rparr>)] \<rparr>))"

text \<open>How a template string renders a field that may be missing, and a binding.\<close>

definition showField :: "string option \<Rightarrow> string" where
  "showField f = (case f of None \<Rightarrow> ''undefined'' | Some s \<Rightarrow> s)"

definition showBinding :: "binding \<Rightarrow> string" where
  "showBinding b =
     (case b of
        Declared l \<Rightarrow> showInt l
      | Inherited p \<Rightarrow>
          if p = ''__proto__'' then ''[object Object]''
          else if p = ''constructor'' then ''function Object() { [native code] }''
          else ''function '' @ p @ ''() { [native code] }'')"

definition getEntryFromReference ::
  "Index \<Rightarrow> Reference \<Rightarrow> Solver \<Rightarrow> error + (string \<times> Solver)" where
  "getEntryFromReference idx ref s =
     (case ref of
        Variable v \<Rightarrow>
          (case labelOfvariableDeclaration idx v of
             None \<Rightarrow> Inl UnknownVariable
           | Some b \<Rightarrow>
               Inr (getOrCreateEntry ''p'' (Str (showField (nameOf v) @ ''#'' @ showBinding b)) s))
      | BoundVariable b \<Rightarrow>
          Inr (getOrCreateEntry ''p'' (Str (showField (variableOf b) @ ''#'' @ showInt (label b))) s)
      | FunctionVariable f \<Rightarrow>
          Inr (getOrCreateEntry ''p'' (Str (showField (nameOf f) @ ''#'' @ showInt (label f))) s)
      | ExpressionReference e \<Rightarrow> Inr (getOrCreateEntry ''C'' (Num (label e)) s))"

section \<open>Enacting and defining rules\<close>

definition dataOf :: "Solver \<Rightarrow> string \<Rightarrow> atom list" where
  "dataOf s eid = (case map_of (entries s) eid of None \<Rightarrow> [] | Some e \<Rightarrow> data e)"

definition rulesOf :: "Solver \<Rightarrow> string \<Rightarrow> (nat \<times> TranslatedRule) list" where
  "rulesOf s eid = (case map_of (entries s) eid of None \<Rightarrow> [] | Some e \<Rightarrow> rules e)"

definition modify :: "string \<Rightarrow> (Entry \<Rightarrow> Entry) \<Rightarrow> Solver \<Rightarrow> Solver" where
  "modify eid f s = s\<lparr> entries := map (\<lambda>(i, e). if i = eid then (i, f e) else (i, e)) (entries s) \<rparr>"

text \<open>Reading \<^verbatim>\<open>rule.lhs\<close>: the array, or a run of the getter.\<close>

definition evaluate :: "Lhs \<Rightarrow> Solver \<Rightarrow> atom list" where
  "evaluate l s =
     (case l of
        Fixed vs \<Rightarrow> vs
      | Computed dynamic dependencies \<Rightarrow> dynamic (map (dataOf s) dependencies)
      | Live e \<Rightarrow> dataOf s e)"

text \<open>
  The loop of \<^verbatim>\<open>enactRule\<close> over the values, on the data of the right-hand side
  and the flag \<^verbatim>\<open>updated\<close>. When the left-hand side is the live data of the very
  entry written to, every value is already present and nothing is added, so reading
  the values before the loop gives what the live iteration gives.
\<close>

fun insertAll :: "atom list \<Rightarrow> atom list \<Rightarrow> bool \<Rightarrow> atom list \<times> bool" where
  "insertAll [] d updated = (d, updated)"
| "insertAll (v # vs) d updated =
     (if v \<in> set d then insertAll vs d updated else insertAll vs (d @ [v]) True)"

definition setAdd :: "'a \<Rightarrow> 'a list \<Rightarrow> 'a list" where
  "setAdd x xs = (if x \<in> set xs then xs else xs @ [x])"

definition enactRule :: "TranslatedRule \<Rightarrow> Solver \<Rightarrow> Solver" where
  "enactRule rule s =
     (case insertAll (evaluate (lhs rule) s) (dataOf s (rhs rule)) False of
        (d, updated) \<Rightarrow>
          (let s' = modify (rhs rule) (\<lambda>e. e\<lparr> data := d \<rparr>) s in
           if updated then s'\<lparr> worklist := setAdd (rhs rule) (worklist s') \<rparr> else s'))"

definition addRule :: "nat \<times> TranslatedRule \<Rightarrow> string \<Rightarrow> Solver \<Rightarrow> Solver" where
  "addRule r eid s =
     modify eid (\<lambda>e. if fst r \<in> fst ` set (rules e) then e else e\<lparr> rules := rules e @ [r] \<rparr>) s"

fun getEntriesFromReferences ::
  "Index \<Rightarrow> Reference list \<Rightarrow> Solver \<Rightarrow> error + (string list \<times> Solver)" where
  "getEntriesFromReferences idx [] s = Inr ([], s)"
| "getEntriesFromReferences idx (r # rs) s =
     andThen (getEntryFromReference idx r s) (\<lambda>(e, s1).
       andThen (getEntriesFromReferences idx rs s1) (\<lambda>(es, s2). Inr (e # es, s2)))"

fun defineRule :: "Index \<Rightarrow> Rule \<Rightarrow> Solver \<Rightarrow> error + Solver" where
  "defineRule idx (Rule l r) s =
     andThen (getEntryFromReference idx r s) (\<lambda>(rhs, s1).
       case l of
         Constant c \<Rightarrow>
           Inr (enactRule \<lparr> lhs = Fixed [c], rhs = rhs \<rparr> (s1\<lparr> created := Suc (created s1) \<rparr>))
       | Dynamic dynamic deps \<Rightarrow>
           andThen (getEntriesFromReferences idx deps s1) (\<lambda>(dependencies, s2).
             let translatedRule = \<lparr> lhs = Computed dynamic dependencies, rhs = rhs \<rparr>;
                 s3 = fold (addRule (created s2, translatedRule)) dependencies
                        (s2\<lparr> created := Suc (created s2) \<rparr>)
             in Inr (enactRule translatedRule s3))
       | Ref ref \<Rightarrow>
           andThen (getEntryFromReference idx ref s1) (\<lambda>(lhs, s2).
             let translatedRule = \<lparr> lhs = Live lhs, rhs = rhs \<rparr>;
                 s3 = addRule (created s2, translatedRule) lhs (s2\<lparr> created := Suc (created s2) \<rparr>)
             in Inr (enactRule translatedRule s3)))"

text \<open>
  The rule script is run as a sequence of calls of \<^verbatim>\<open>define\<close>; the first call
  that throws ends the run.
\<close>

fun defineRules :: "Index \<Rightarrow> Rule list \<Rightarrow> Solver \<Rightarrow> error + Solver" where
  "defineRules idx [] s = Inr s"
| "defineRules idx (r # rs) s = andThen (defineRule idx r s) (defineRules idx rs)"

section \<open>The drain loop\<close>

text \<open>
  \<^verbatim>\<open>worklist\<close> is a \<^verbatim>\<open>Set\<close> of entries, here the list of their ids in insertion
  order. The loop \<^verbatim>\<open>for (const entry of worklist)\<close> walks the set while
  \<^verbatim>\<open>enactRule\<close> adds to it: an entry added during the walk is visited later in
  the same walk, an entry that is already a member is not added again, and
  nothing is ever deleted. \<open>drain i\<close> is the walk from position \<open>i\<close> on. It
  always ends: every entry it can add is the right-hand side of a stored rule, and
  each joins the set at most once.
\<close>

definition rhsTargets :: "Solver \<Rightarrow> string set" where
  "rhsTargets s = (\<Union>p \<in> set (entries s). (\<lambda>r. rhs (snd r)) ` set (rules (snd p)))"

definition potential :: "Solver \<Rightarrow> nat" where
  "potential s = card (rhsTargets s - set (worklist s)) + length (worklist s)"

lemma finite_rhsTargets: "finite (rhsTargets s)"
  by (auto simp: rhsTargets_def)

lemma entries_modify_data:
  "map (\<lambda>(i, e). (i, rules e)) (entries (modify eid (\<lambda>e. e\<lparr> data := d \<rparr>) s))
     = map (\<lambda>(i, e). (i, rules e)) (entries s)"
  by (auto simp: modify_def)

lemma rules_enactRule:
  "map (\<lambda>(i, e). (i, rules e)) (entries (enactRule t s)) = map (\<lambda>(i, e). (i, rules e)) (entries s)"
  by (auto simp: enactRule_def Let_def entries_modify_data split: prod.splits)

lemma rhsTargets_alt:
  "rhsTargets s = (\<Union>p \<in> set (map (\<lambda>(i, e). (i, rules e)) (entries s)). (\<lambda>r. rhs (snd r)) ` set (snd p))"
  by (force simp: rhsTargets_def)

lemma rhsTargets_enactRule: "rhsTargets (enactRule t s) = rhsTargets s"
  by (simp only: rhsTargets_alt rules_enactRule)

lemma worklist_enactRule:
  "worklist (enactRule t s) = worklist s \<or>
   (rhs t \<notin> set (worklist s) \<and> worklist (enactRule t s) = worklist s @ [rhs t])"
  by (auto simp: enactRule_def Let_def modify_def setAdd_def split: prod.splits)

lemma potential_enactRule:
  assumes "rhs t \<in> rhsTargets s"
  shows "potential (enactRule t s) = potential s"
proof -
  consider "worklist (enactRule t s) = worklist s"
    | "rhs t \<notin> set (worklist s)" "worklist (enactRule t s) = worklist s @ [rhs t]"
    using worklist_enactRule by blast
  then show ?thesis
  proof cases
    case 1
    then show ?thesis by (simp add: potential_def rhsTargets_enactRule)
  next
    case 2
    have "rhsTargets s - set (worklist s @ [rhs t]) = (rhsTargets s - set (worklist s)) - {rhs t}"
      by auto
    moreover have "rhs t \<in> rhsTargets s - set (worklist s)" using assms 2 by simp
    moreover have "finite (rhsTargets s - set (worklist s))" by (simp add: finite_rhsTargets)
    ultimately have "card (rhsTargets s - set (worklist s @ [rhs t])) + 1 = card (rhsTargets s - set (worklist s))"
      by (metis Suc_eq_plus1 card_Suc_Diff1)
    then show ?thesis using 2 by (simp add: potential_def rhsTargets_enactRule)
  qed
qed

lemma potential_fold:
  "\<forall>r \<in> set ts. rhs (snd r) \<in> rhsTargets s \<Longrightarrow>
   potential (fold (\<lambda>(n, rule). enactRule rule) ts s) = potential s
   \<and> rhsTargets (fold (\<lambda>(n, rule). enactRule rule) ts s) = rhsTargets s"
  by (induction ts arbitrary: s) (auto simp: potential_enactRule rhsTargets_enactRule)

lemma rulesOf_rhsTargets: "r \<in> set (rulesOf s i) \<Longrightarrow> rhs (snd r) \<in> rhsTargets s"
proof -
  assume a: "r \<in> set (rulesOf s i)"
  then obtain e where e: "map_of (entries s) i = Some e" "r \<in> set (rules e)"
    by (cases "map_of (entries s) i") (auto simp: rulesOf_def)
  then have "(i, e) \<in> set (entries s)" by (simp add: map_of_SomeD)
  then show ?thesis unfolding rhsTargets_def using e(2) by force
qed

function drain :: "nat \<Rightarrow> Solver \<Rightarrow> Solver" where
  "drain i s =
     (if i < length (worklist s)
      then drain (Suc i) (fold (\<lambda>(n, rule). enactRule rule) (rulesOf s (worklist s ! i)) s)
      else s)"
  by pat_completeness auto
termination
proof (relation "measure (\<lambda>(i, s). potential s - i)")
  show "wf (measure (\<lambda>(i, s). potential s - i))" by simp
next
  fix i and s :: Solver
  assume lt: "i < length (worklist s)"
  let ?s' = "fold (\<lambda>(n, rule). enactRule rule) (rulesOf s (worklist s ! i)) s"
  have "potential ?s' = potential s"
    using potential_fold [of "rulesOf s (worklist s ! i)" s] rulesOf_rhsTargets by blast
  moreover have "length (worklist s) \<le> potential s" by (simp add: potential_def)
  ultimately show "((Suc i, ?s'), (i, s)) \<in> measure (\<lambda>(i, s). potential s - i)"
    using lt by simp
qed

declare drain.simps [simp del]

section \<open>The result\<close>

text \<open>
  The comparator handed to \<^verbatim>\<open>sort\<close>. \<^verbatim>\<open>String.prototype.localeCompare\<close> belongs to
  the host and is a parameter. \<^verbatim>\<open>Array.prototype.sort\<close> is stable; for a consistent
  comparator its result is the one stable insertion sort gives.
\<close>

definition compareEntries :: "(string \<Rightarrow> string \<Rightarrow> int) \<Rightarrow> Entry \<Rightarrow> Entry \<Rightarrow> int" where
  "compareEntries localeCompare a b =
     (case (key a, key b) of
        (Num x, Num y) \<Rightarrow> x - y
      | (Str x, Str y) \<Rightarrow> localeCompare x y
      | (Num x, Str y) \<Rightarrow> - 1
      | (Str x, Num y) \<Rightarrow> 1)"

fun insertBy :: "('a \<Rightarrow> 'a \<Rightarrow> int) \<Rightarrow> 'a \<Rightarrow> 'a list \<Rightarrow> 'a list" where
  "insertBy cmp x [] = [x]"
| "insertBy cmp x (y # ys) = (if cmp x y \<le> 0 then x # y # ys else y # insertBy cmp x ys)"

definition sortBy :: "('a \<Rightarrow> 'a \<Rightarrow> int) \<Rightarrow> 'a list \<Rightarrow> 'a list" where
  "sortBy cmp xs = foldr (insertBy cmp) xs []"

definition sortedEntries :: "(string \<Rightarrow> string \<Rightarrow> int) \<Rightarrow> Solver \<Rightarrow> (string \<times> Entry) list" where
  "sortedEntries localeCompare s =
     sortBy (\<lambda>p q. compareEntries localeCompare (snd p) (snd q)) (entries s)"

text \<open>
  The \<^verbatim>\<open>Analysis\<close> object: its properties in order. No entry name is an array
  index, so the properties keep the order in which \<^verbatim>\<open>Object.fromEntries\<close> adds
  them.
\<close>

type_synonym Analysis = "(string \<times> atom list) list"

definition analysis :: "(string \<Rightarrow> string \<Rightarrow> int) \<Rightarrow> Solver \<Rightarrow> Analysis" where
  "analysis localeCompare s =
     map (\<lambda>(name, entry). (name, data entry)) (sortedEntries localeCompare s)"

text \<open>The state in which the loop starts, the state in which it ends, and the worker.\<close>

definition seeded :: "Expression \<Rightarrow> Rule list \<Rightarrow> error + Solver" where
  "seeded expression rs =
     andThen (collectExpressions expression Map.empty emptyIndex)
       (\<lambda>idx. defineRules idx rs emptySolver)"

definition drained :: "Expression \<Rightarrow> Rule list \<Rightarrow> error + Solver" where
  "drained expression rs = andThen (seeded expression rs) (\<lambda>s. Inr (drain 0 s))"

definition solve ::
  "(string \<Rightarrow> string \<Rightarrow> int) \<Rightarrow> Expression \<Rightarrow> Rule list \<Rightarrow> error + Analysis" where
  "solve localeCompare expression rs =
     andThen (drained expression rs) (\<lambda>s. Inr (analysis localeCompare s))"

text \<open>
  \<^verbatim>\<open>String.prototype.localeCompare\<close> is the host's: it compares by the collation
  of the default locale, and the solver takes whatever it answers, so \<open>solve\<close>
  has it as a parameter. Two comparators are used in concrete runs.
  \<open>collationCompare\<close> follows the host's collation on the characters a key is
  made of (the lower-case letters and the underscore of a name, \<^verbatim>\<open>#\<close>, the
  digits of a label): punctuation comes before digits and digits before letters,
  and among punctuation the underscore comes before \<^verbatim>\<open>#\<close>; every other
  character is ordered by its code, after these two. \<open>codeUnitCompare\<close> compares
  the characters' codes; on two keys it agrees with the collation unless they
  first differ where one has \<^verbatim>\<open>_\<close> and the other \<^verbatim>\<open>#\<close>, and it is used only in
  runs without such a pair of keys.
\<close>

definition collationWeight :: "char \<Rightarrow> nat" where
  "collationWeight c =
     (if c = CHR ''_'' then 0 else if c = CHR ''#'' then 1 else 2 + of_char c)"

definition collationCompare :: "string \<Rightarrow> string \<Rightarrow> int" where
  "collationCompare a b =
     (if map collationWeight a < map collationWeight b then - 1
      else if map collationWeight a = map collationWeight b then 0 else 1)"

definition codeUnitCompare :: "string \<Rightarrow> string \<Rightarrow> int" where
  "codeUnitCompare a b = (if a < b then - 1 else if a = b then 0 else 1)"

section \<open>Notions used in the statements\<close>

text \<open>
  \<open>extends s s'\<close>: from \<open>s\<close> to \<open>s'\<close> every data list has only been appended
  to and has kept its values distinct, and the entries of \<open>s\<close> are still there, in
  the same order, possibly followed by new ones.
\<close>

definition extends :: "Solver \<Rightarrow> Solver \<Rightarrow> bool" where
  "extends s s' =
     ((\<forall>j. prefix (dataOf s j) (dataOf s' j)) \<and>
      (\<forall>j. distinct (dataOf s j) \<longrightarrow> distinct (dataOf s' j)) \<and>
      prefix (map fst (entries s)) (map fst (entries s')) \<and>
      (distinct (map fst (entries s)) \<longrightarrow> distinct (map fst (entries s'))))"

text \<open>
  \<open>later s s'\<close>: the solver reaches \<open>s'\<close> from \<open>s\<close> by zero or more steps, each
  the enactment of a rule or a call of \<^verbatim>\<open>define\<close> that returns.
\<close>

inductive later :: "Solver \<Rightarrow> Solver \<Rightarrow> bool" where
  here: "later s s"
| enacted: "later s s' \<Longrightarrow> later s (enactRule t s')"
| defined: "later s s' \<Longrightarrow> defineRule idx r s' = Inr s'' \<Longrightarrow> later s s''"

text \<open>
  The program \<^verbatim>\<open>(1 + 2)\<close>: the sum has label 1, its operands the labels 2 and 3.
  Four rules over the entries \<^verbatim>\<open>C(1)\<close>, \<^verbatim>\<open>C(2)\<close> and \<^verbatim>\<open>C(3)\<close>: \<^verbatim>\<open>C(3)\<close> takes
  all of \<^verbatim>\<open>C(1)\<close>, \<^verbatim>\<open>C(1)\<close> takes all of \<^verbatim>\<open>C(2)\<close>, 1 is in \<^verbatim>\<open>C(1)\<close> and 2 is
  in \<^verbatim>\<open>C(2)\<close>. The second list holds the same rules with the last two swapped.
\<close>

definition sumTree :: Expression where
  "sumTree = OperationExpression 1 Add (NumericConstant 2 1) (NumericConstant 3 2)"

definition chainRules :: "Rule list" where
  "chainRules =
     [Rule (Ref (ExpressionReference sumTree)) (ExpressionReference (NumericConstant 3 2)),
      Rule (Ref (ExpressionReference (NumericConstant 2 1))) (ExpressionReference sumTree),
      Rule (Constant (Num 1)) (ExpressionReference sumTree),
      Rule (Constant (Num 2)) (ExpressionReference (NumericConstant 2 1))]"

definition chainRulesSwapped :: "Rule list" where
  "chainRulesSwapped =
     [Rule (Ref (ExpressionReference sumTree)) (ExpressionReference (NumericConstant 3 2)),
      Rule (Ref (ExpressionReference (NumericConstant 2 1))) (ExpressionReference sumTree),
      Rule (Constant (Num 2)) (ExpressionReference (NumericConstant 2 1)),
      Rule (Constant (Num 1)) (ExpressionReference sumTree)]"

text \<open>
  The \<^verbatim>\<open>var\<close> nodes of a tree (label and name) that no enclosing \<^verbatim>\<open>fn\<close>,
  \<^verbatim>\<open>fun\<close> or \<^verbatim>\<open>let\<close> binds, given the names bound outside; a \<^verbatim>\<open>let\<close> binds
  its variable in its body only.
\<close>

fun unboundVariables :: "string set \<Rightarrow> Expression \<Rightarrow> (int \<times> string) list" where
  "unboundVariables bound (NumericConstant l n) = []"
| "unboundVariables bound (BooleanConstant l b) = []"
| "unboundVariables bound (VariableExpression l name) = (if name \<in> bound then [] else [(l, name)])"
| "unboundVariables bound (OperationExpression l oper left right) =
     unboundVariables bound left @ unboundVariables bound right"
| "unboundVariables bound (IfExpression l condition thenBody elseBody) =
     unboundVariables bound condition @ unboundVariables bound thenBody
       @ unboundVariables bound elseBody"
| "unboundVariables bound (FnExpression l variable body) =
     unboundVariables (insert variable bound) body"
| "unboundVariables bound (FunExpression l name variable body) =
     unboundVariables (insert name (insert variable bound)) body"
| "unboundVariables bound (ApplicationExpression l callable argument) =
     unboundVariables bound callable @ unboundVariables bound argument"
| "unboundVariables bound (LetExpression l variable val body) =
     unboundVariables bound val @ unboundVariables (insert variable bound) body"

text \<open>The \<^verbatim>\<open>fun\<close> nodes whose function name is also their parameter.\<close>

fun collidingFuns :: "Expression \<Rightarrow> (int \<times> string) list" where
  "collidingFuns (FunExpression l name variable body) =
     (if name = variable then [(l, name)] else []) @ collidingFuns body"
| "collidingFuns (OperationExpression l oper left right) = collidingFuns left @ collidingFuns right"
| "collidingFuns (IfExpression l condition thenBody elseBody) =
     collidingFuns condition @ collidingFuns thenBody @ collidingFuns elseBody"
| "collidingFuns (FnExpression l variable body) = collidingFuns body"
| "collidingFuns (ApplicationExpression l callable argument) =
     collidingFuns callable @ collidingFuns argument"
| "collidingFuns (LetExpression l variable val body) = collidingFuns val @ collidingFuns body"
| "collidingFuns e = []"

text \<open>
  The nodes at which the traversal throws when it gets there, in the order of the
  traversal, each as the error it throws. A \<^verbatim>\<open>var\<close> node that is not bound throws
  unless its name is a property every object inherits.
\<close>

fun scopeErrors :: "string set \<Rightarrow> Expression \<Rightarrow> error list" where
  "scopeErrors bound (NumericConstant l n) = []"
| "scopeErrors bound (BooleanConstant l b) = []"
| "scopeErrors bound (VariableExpression l name) =
     (if name \<in> bound \<or> name \<in> set objectPrototypeKeys then [] else [UnboundVariable l name])"
| "scopeErrors bound (OperationExpression l oper left right) =
     scopeErrors bound left @ scopeErrors bound right"
| "scopeErrors bound (IfExpression l condition thenBody elseBody) =
     scopeErrors bound condition @ scopeErrors bound thenBody @ scopeErrors bound elseBody"
| "scopeErrors bound (FnExpression l variable body) = scopeErrors (insert variable bound) body"
| "scopeErrors bound (FunExpression l name variable body) =
     (if name = variable then [NameCollision l name] else [])
       @ scopeErrors (insert name (insert variable bound)) body"
| "scopeErrors bound (ApplicationExpression l callable argument) =
     scopeErrors bound callable @ scopeErrors bound argument"
| "scopeErrors bound (LetExpression l variable val body) =
     scopeErrors bound val @ scopeErrors (insert variable bound) body"

text \<open>
  The offending nodes of a tree in the words of the scoping rule, in the order of
  the traversal, each as its error: every \<^verbatim>\<open>var\<close> node that is not bound, whatever
  its name, and every \<^verbatim>\<open>fun\<close> node that uses one name twice.
\<close>

fun offenders :: "string set \<Rightarrow> Expression \<Rightarrow> error list" where
  "offenders bound (NumericConstant l n) = []"
| "offenders bound (BooleanConstant l b) = []"
| "offenders bound (VariableExpression l name) =
     (if name \<in> bound then [] else [UnboundVariable l name])"
| "offenders bound (OperationExpression l oper left right) =
     offenders bound left @ offenders bound right"
| "offenders bound (IfExpression l condition thenBody elseBody) =
     offenders bound condition @ offenders bound thenBody @ offenders bound elseBody"
| "offenders bound (FnExpression l variable body) = offenders (insert variable bound) body"
| "offenders bound (FunExpression l name variable body) =
     (if name = variable then [NameCollision l name] else [])
       @ offenders (insert name (insert variable bound)) body"
| "offenders bound (ApplicationExpression l callable argument) =
     offenders bound callable @ offenders bound argument"
| "offenders bound (LetExpression l variable val body) =
     offenders bound val @ offenders (insert variable bound) body"

text \<open>
  \<open>bindsName b n\<close>: the node \<open>b\<close> binds the name \<open>n\<close>, as the variable of a
  \<^verbatim>\<open>fn\<close>, \<^verbatim>\<open>fun\<close> or \<^verbatim>\<open>let\<close> node or as the function name of a \<^verbatim>\<open>fun\<close> node.
\<close>

definition bindsName :: "Expression \<Rightarrow> string \<Rightarrow> bool" where
  "bindsName b n = (variableOf b = Some n \<or> (typeOf b = TFun \<and> nameOf b = Some n))"

text \<open>
  The scoping rule in the words of its description: \<open>bindings env e\<close> lists every
  bound \<^verbatim>\<open>var\<close> node of \<open>e\<close> with its binder, the innermost \<^verbatim>\<open>fn\<close>, \<^verbatim>\<open>fun\<close> or
  \<^verbatim>\<open>let\<close> node around it that binds its name; \<open>env\<close> gives the binders around
  \<open>e\<close>. A \<^verbatim>\<open>let\<close> node binds its variable in its body only.
\<close>

fun bindings :: "(string \<rightharpoonup> Expression) \<Rightarrow> Expression \<Rightarrow> (Expression \<times> Expression) list" where
  "bindings env (NumericConstant l n) = []"
| "bindings env (BooleanConstant l b) = []"
| "bindings env (VariableExpression l name) =
     (case env name of None \<Rightarrow> [] | Some binder \<Rightarrow> [(VariableExpression l name, binder)])"
| "bindings env (OperationExpression l oper left right) = bindings env left @ bindings env right"
| "bindings env (IfExpression l condition thenBody elseBody) =
     bindings env condition @ bindings env thenBody @ bindings env elseBody"
| "bindings env (FnExpression l variable body) =
     bindings (env(variable \<mapsto> FnExpression l variable body)) body"
| "bindings env (FunExpression l name variable body) =
     bindings (env(name \<mapsto> FunExpression l name variable body,
                   variable \<mapsto> FunExpression l name variable body)) body"
| "bindings env (ApplicationExpression l callable argument) =
     bindings env callable @ bindings env argument"
| "bindings env (LetExpression l variable val body) =
     bindings env val @ bindings (env(variable \<mapsto> LetExpression l variable val body)) body"

text \<open>
  \<^verbatim>\<open>(fn x => (fn x => x))\<close>, where the inner binder shadows the outer one, and
  \<^verbatim>\<open>(fun f x => f)\<close>, whose body names the function.
\<close>

definition shadowTree :: Expression where
  "shadowTree = FnExpression 1 ''x'' (FnExpression 2 ''x'' (VariableExpression 3 ''x''))"

definition selfTree :: Expression where
  "selfTree = FunExpression 1 ''f'' ''x'' (VariableExpression 2 ''f'')"

text \<open>
  The collection of a node type (empty when the type was never seen), and a call
  of \<^verbatim>\<open>type\<close> made by the rule script of a solve of a tree.
\<close>

definition collectionOf :: "Index \<Rightarrow> etype \<Rightarrow> Expression list" where
  "collectionOf idx type = (case expressions idx type of None \<Rightarrow> [] | Some collection \<Rightarrow> collection)"

definition typeCall :: "Expression \<Rightarrow> etype list \<Rightarrow> error + Generator" where
  "typeCall expression types =
     andThen (collectExpressions expression Map.empty emptyIndex)
       (\<lambda>idx. Inr (getExpressionsOfType idx types))"

text \<open>
  The order of the result in the words of its description: a numeric
  discriminator comes before a string, two numbers are in ascending order, and two
  strings are in the ascending order of \<^verbatim>\<open>localeCompare\<close>.
\<close>

fun discriminatorLe :: "(string \<Rightarrow> string \<Rightarrow> int) \<Rightarrow> atom \<Rightarrow> atom \<Rightarrow> bool" where
  "discriminatorLe localeCompare (Num x) (Num y) = (x \<le> y)"
| "discriminatorLe localeCompare (Num x) (Str y) = True"
| "discriminatorLe localeCompare (Str x) (Num y) = False"
| "discriminatorLe localeCompare (Str x) (Str y) = (localeCompare x y \<le> 0)"

fun isNumber :: "atom \<Rightarrow> bool" where
  "isNumber (Num x) = True"
| "isNumber (Str x) = False"

text \<open>The numeric and the string discriminators of a list of entries, in its order.\<close>

fun numberKeys :: "(string \<times> Entry) list \<Rightarrow> int list" where
  "numberKeys [] = []"
| "numberKeys (p # ps) =
     (case key (snd p) of Num n \<Rightarrow> n # numberKeys ps | Str x \<Rightarrow> numberKeys ps)"

fun stringKeys :: "(string \<times> Entry) list \<Rightarrow> string list" where
  "stringKeys [] = []"
| "stringKeys (p # ps) =
     (case key (snd p) of Num n \<Rightarrow> stringKeys ps | Str x \<Rightarrow> x # stringKeys ps)"

text \<open>
  A run on \<^verbatim>\<open>(fun f x => x)\<close> that makes two entries of each kind, out of order,
  and inserts 2 before 1 into one of them.
\<close>

definition orderTree :: Expression where
  "orderTree = FunExpression 1 ''f'' ''x'' (VariableExpression 2 ''x'')"

definition orderRules :: "Rule list" where
  "orderRules =
     [Rule (Constant (Num 2)) (BoundVariable orderTree),
      Rule (Constant (Num 2)) (ExpressionReference (VariableExpression 2 ''x'')),
      Rule (Constant (Num 1)) (ExpressionReference (VariableExpression 2 ''x'')),
      Rule (Constant (Str ''a'')) (FunctionVariable orderTree),
      Rule (Constant (Num 7)) (ExpressionReference orderTree)]"

text \<open>
  A run on \<^verbatim>\<open>(fn a => (fn a_ => a))\<close> that makes an entry for each binder, the
  outer one first.
\<close>

definition collationTree :: Expression where
  "collationTree = FnExpression 1 ''a'' (FnExpression 2 ''a_'' (VariableExpression 3 ''a''))"

definition collationRules :: "Rule list" where
  "collationRules =
     [Rule (Constant (Num 1)) (BoundVariable collationTree),
      Rule (Constant (Num 2))
        (BoundVariable (FnExpression 2 ''a_'' (VariableExpression 3 ''a'')))]"

text \<open>
  The references a rule names, and the id of the entry a reference resolves to
  (it does not depend on the store).
\<close>

fun references :: "Rule \<Rightarrow> Reference list" where
  "references (Rule l r) =
     r # (case l of Constant c \<Rightarrow> [] | Dynamic dynamic deps \<Rightarrow> deps | Ref x \<Rightarrow> [x])"

definition entryOf :: "Index \<Rightarrow> Reference \<Rightarrow> error + string" where
  "entryOf idx ref = map_sum (\<lambda>e. e) fst (getEntryFromReference idx ref emptySolver)"

text \<open>
  Two rules on \<^verbatim>\<open>(1 + 2)\<close> that never yield a value: \<^verbatim>\<open>C(1)\<close> takes all of
  \<^verbatim>\<open>C(2)\<close>, and \<^verbatim>\<open>C(2)\<close> takes what a callback makes of \<^verbatim>\<open>C(3)\<close>.
\<close>

definition idleRules :: "Rule list" where
  "idleRules =
     [Rule (Ref (ExpressionReference (NumericConstant 2 1))) (ExpressionReference sumTree),
      Rule (Dynamic concat [ExpressionReference (NumericConstant 3 2)])
           (ExpressionReference (NumericConstant 2 1))]"

section \<open>Growth of the store\<close>

lemma ids_modify [simp]: "map fst (entries (modify i f s)) = map fst (entries s)"
  by (auto simp: modify_def)

lemma map_of_modify:
  "map_of (entries (modify i f s)) j =
     (if j = i then map_option f (map_of (entries s) j) else map_of (entries s) j)"
proof -
  have "map_of (map (\<lambda>(k, e). if k = i then (k, f e) else (k, e)) xs) j =
        (if j = i then map_option f (map_of xs j) else map_of xs j)" for xs
    by (induction xs) auto
  then show ?thesis by (simp add: modify_def)
qed

lemma worklist_modify [simp]: "worklist (modify i f s) = worklist s"
  by (simp add: modify_def)

lemma created_modify [simp]: "created (modify i f s) = created s"
  by (simp add: modify_def)

lemma insertAll_grows:
  "insertAll vs d u = (d', u') \<Longrightarrow>
     prefix d d' \<and> (distinct d \<longrightarrow> distinct d') \<and> set d' = set d \<union> set vs \<and> (u' = (u \<or> d' \<noteq> d))"
proof (induction vs arbitrary: d u)
  case Nil
  then show ?case by simp
next
  case (Cons v vs)
  show ?case
  proof (cases "v \<in> set d")
    case True
    with Cons.prems have "insertAll vs d u = (d', u')" by simp
    from Cons.IH [OF this] True show ?thesis by auto
  next
    case False
    with Cons.prems have "insertAll vs (d @ [v]) True = (d', u')" by simp
    from Cons.IH [OF this] False show ?thesis
      by (auto dest: append_prefixD)
  qed
qed

lemma dataOf_enactRule:
  "dataOf (enactRule t s) j =
     (if j = rhs t \<and> map_of (entries s) j \<noteq> None
      then fst (insertAll (evaluate (lhs t) s) (dataOf s (rhs t)) False)
      else dataOf s j)"
  by (auto simp: enactRule_def dataOf_def Let_def map_of_modify split: prod.splits option.splits)

lemma enactRule_grows:
  "prefix (dataOf s j) (dataOf (enactRule t s) j) \<and>
   (distinct (dataOf s j) \<longrightarrow> distinct (dataOf (enactRule t s) j))"
proof (cases "insertAll (evaluate (lhs t) s) (dataOf s (rhs t)) False")
  case (Pair d' u')
  from insertAll_grows [OF this] show ?thesis
    by (simp add: dataOf_enactRule Pair)
qed

lemma extends_refl [simp]: "extends s s"
  by (simp add: extends_def)

lemma extends_trans: "extends s s' \<Longrightarrow> extends s' s'' \<Longrightarrow> extends s s''"
  unfolding extends_def by (meson prefix_order.trans)

lemma extends_enactRule: "extends s (enactRule t s)"
proof -
  have "map fst (entries (enactRule t s)) = map fst (entries s)"
    by (simp add: enactRule_def Let_def split: prod.splits)
  then show ?thesis using enactRule_grows by (simp add: extends_def)
qed

lemma dataOf_addRule [simp]: "dataOf (addRule r i s) j = dataOf s j"
  by (auto simp: addRule_def dataOf_def map_of_modify split: option.splits)

lemma extends_addRule: "extends s (addRule r i s)"
  by (simp add: extends_def addRule_def [of r i s, THEN arg_cong [where f = "\<lambda>s. map fst (entries s)"]])

lemma extends_fold_addRule: "extends s (fold (addRule r) is s)"
proof (induction "is" arbitrary: s)
  case Nil
  then show ?case by simp
next
  case (Cons i "is")
  show ?case using extends_trans [OF extends_addRule Cons.IH] by simp
qed

lemma dataOf_created [simp]: "dataOf (s\<lparr> created := n \<rparr>) j = dataOf s j"
  by (simp add: dataOf_def)

lemma extends_created: "extends s (s\<lparr> created := n \<rparr>)"
  by (simp add: extends_def)

lemma getOrCreateEntry_eq:
  "getOrCreateEntry c k s =
     (entryId c k,
      if entryId c k \<in> fst ` set (entries s) then s
      else s\<lparr> entries := entries s @ [(entryId c k, \<lparr> key = k, data = [], rules = [] \<rparr>)] \<rparr>)"
proof (cases "map_of (entries s) (entryId c k)")
  case None
  then have "entryId c k \<notin> fst ` set (entries s)"
    by (simp add: map_of_eq_None_iff)
  with None show ?thesis by (simp add: getOrCreateEntry_def Let_def)
next
  case (Some e)
  then have "entryId c k \<in> fst ` set (entries s)"
    by (meson domI domIff map_of_eq_None_iff)
  with Some show ?thesis by (simp add: getOrCreateEntry_def Let_def)
qed

lemma extends_getOrCreateEntry: "extends s (snd (getOrCreateEntry c k s))"
proof (cases "entryId c k \<in> fst ` set (entries s)")
  case True
  then show ?thesis by (simp add: getOrCreateEntry_eq)
next
  case False
  then have none: "map_of (entries s) (entryId c k) = None"
    by (simp add: map_of_eq_None_iff)
  have "dataOf (snd (getOrCreateEntry c k s)) j = dataOf s j" for j
    using False none by (auto simp: getOrCreateEntry_eq dataOf_def map_add_def split: option.splits)
  then show ?thesis using False by (simp add: extends_def getOrCreateEntry_eq)
qed

lemma extends_getEntryFromReference:
  "getEntryFromReference idx ref s = Inr (i, s') \<Longrightarrow> extends s s'"
  using extends_getOrCreateEntry
  by (auto simp: getEntryFromReference_def split: Reference.splits option.splits)
    (metis snd_conv)+

lemma extends_getEntriesFromReferences:
  "getEntriesFromReferences idx refs s = Inr (is, s') \<Longrightarrow> extends s s'"
proof (induction refs arbitrary: s "is")
  case Nil
  then show ?case by simp
next
  case (Cons r refs)
  from Cons.prems obtain i s1 where 1: "getEntryFromReference idx r s = Inr (i, s1)"
    by (cases "getEntryFromReference idx r s") auto
  with Cons.prems obtain is' where 2: "getEntriesFromReferences idx refs s1 = Inr (is', s')"
    by (cases "getEntriesFromReferences idx refs s1") auto
  show ?case
    using extends_trans [OF extends_getEntryFromReference [OF 1] Cons.IH [OF 2]] .
qed

lemma extends_defineRule: "defineRule idx r s = Inr s' \<Longrightarrow> extends s s'"
proof (cases r)
  case (Rule l ref)
  assume d: "defineRule idx r s = Inr s'"
  then obtain rhs s1 where 1: "getEntryFromReference idx ref s = Inr (rhs, s1)"
    using Rule by (cases "getEntryFromReference idx ref s") auto
  note e1 = extends_getEntryFromReference [OF 1]
  show ?thesis
  proof (cases l)
    case (Constant c)
    with d Rule 1 have "s' = enactRule \<lparr> lhs = Fixed [c], rhs = rhs \<rparr> (s1\<lparr> created := Suc (created s1) \<rparr>)"
      by simp
    then show ?thesis
      by (simp only:) (rule extends_trans [OF e1], rule extends_trans [OF extends_created],
          rule extends_enactRule)
  next
    case (Dynamic f deps)
    with d Rule 1 obtain ds s2 where 2: "getEntriesFromReferences idx deps s1 = Inr (ds, s2)"
      by (cases "getEntriesFromReferences idx deps s1") auto
    with d Rule 1 Dynamic have "s' = enactRule \<lparr> lhs = Computed f ds, rhs = rhs \<rparr>
        (fold (addRule (created s2, \<lparr> lhs = Computed f ds, rhs = rhs \<rparr>)) ds (s2\<lparr> created := Suc (created s2) \<rparr>))"
      by (simp add: Let_def)
    then show ?thesis
      by (simp only:) (rule extends_trans [OF e1],
          rule extends_trans [OF extends_getEntriesFromReferences [OF 2]],
          rule extends_trans [OF extends_created], rule extends_trans [OF extends_fold_addRule],
          rule extends_enactRule)
  next
    case (Ref lref)
    with d Rule 1 obtain i s2 where 2: "getEntryFromReference idx lref s1 = Inr (i, s2)"
      by (cases "getEntryFromReference idx lref s1") auto
    with d Rule 1 Ref have "s' = enactRule \<lparr> lhs = Live i, rhs = rhs \<rparr>
        (addRule (created s2, \<lparr> lhs = Live i, rhs = rhs \<rparr>) i (s2\<lparr> created := Suc (created s2) \<rparr>))"
      by (simp add: Let_def)
    then show ?thesis
      by (simp only:) (rule extends_trans [OF e1],
          rule extends_trans [OF extends_getEntryFromReference [OF 2]],
          rule extends_trans [OF extends_created], rule extends_trans [OF extends_addRule],
          rule extends_enactRule)
  qed
qed

lemma extends_defineRules: "defineRules idx rs s = Inr s' \<Longrightarrow> extends s s'"
proof (induction rs arbitrary: s)
  case Nil
  then show ?case by simp
next
  case (Cons r rs)
  from Cons.prems obtain s1 where 1: "defineRule idx r s = Inr s1"
    by (cases "defineRule idx r s") auto
  with Cons.prems have "defineRules idx rs s1 = Inr s'" by simp
  from extends_trans [OF extends_defineRule [OF 1] Cons.IH [OF this]] show ?case .
qed

lemma extends_fold_enactRule: "extends s (fold (\<lambda>(n, rule). enactRule rule) ts s)"
proof (induction ts arbitrary: s)
  case Nil
  then show ?case by simp
next
  case (Cons t ts)
  show ?case using extends_trans [OF extends_enactRule Cons.IH] by (cases t) simp
qed

lemma extends_drain: "extends s (drain i s)"
proof (induction i s rule: drain.induct)
  case (1 i s)
  show ?case
  proof (cases "i < length (worklist s)")
    case True
    from extends_trans [OF extends_fold_enactRule "1.IH" [OF True]] True
    show ?thesis by (subst drain.simps) simp
  next
    case False
    then show ?thesis by (subst drain.simps) simp
  qed
qed

lemma later_trans: "later s' s'' \<Longrightarrow> later s s' \<Longrightarrow> later s s''"
  by (induction rule: later.induct) (auto intro: later.intros)

lemma later_extends: "later s s' \<Longrightarrow> extends s s'"
proof (induction rule: later.induct)
  case (here s)
  show ?case by simp
next
  case (enacted s s' t)
  then show ?case using extends_enactRule extends_trans by blast
next
  case (defined s s' idx r s'')
  then show ?case using extends_defineRule extends_trans by blast
qed

lemma later_defineRules: "defineRules idx rs s = Inr s' \<Longrightarrow> later s s'"
proof (induction rs arbitrary: s)
  case Nil
  then show ?case by (simp add: later.here)
next
  case (Cons r rs)
  from Cons.prems obtain s1 where 1: "defineRule idx r s = Inr s1"
    by (cases "defineRule idx r s") auto
  with Cons.prems have "defineRules idx rs s1 = Inr s'" by simp
  from later_trans [OF Cons.IH [OF this]] later.defined [OF later.here 1] show ?case .
qed

lemma later_fold_enactRule: "later s (fold (\<lambda>(n, rule). enactRule rule) ts s)"
proof (induction ts arbitrary: s)
  case Nil
  then show ?case by (simp add: later.here)
next
  case (Cons t ts)
  show ?case using later_trans [OF Cons.IH later.enacted [OF later.here]] by (cases t) simp
qed

lemma later_drain: "later s (drain i s)"
proof (induction i s rule: drain.induct)
  case (1 i s)
  show ?case
  proof (cases "i < length (worklist s)")
    case True
    from later_trans [OF "1.IH" [OF True] later_fold_enactRule] True
    show ?thesis by (subst drain.simps) simp
  next
    case False
    then show ?thesis by (subst drain.simps) (simp add: later.here)
  qed
qed

text \<open>Every state of a solve is reached from the empty solver, the final one included.\<close>

lemma later_solve:
  "seeded expression rs = Inr s \<Longrightarrow> later emptySolver s \<and> later s (drain i s)"
  by (cases "collectExpressions expression Map.empty emptyIndex")
     (auto simp: seeded_def later_defineRules later_drain)

section \<open>Evaluation of concrete runs\<close>

lemmas run_simps =
  emptySolver_def emptyIndex_def getEntryFromReference_def getOrCreateEntry_def entryId_def
  showInt_def showNat.simps digit_def showField_def showBinding_def enactRule_def evaluate_def dataOf_def
  rulesOf_def modify_def setAdd_def addRule_def Let_def register_def contextGet_def
  extendContext_def objectPrototypeKeys_def seeded_def drained_def solve_def analysis_def
  sortedEntries_def sortBy_def compareEntries_def

section \<open>Data only grows\<close>

text \<open>
  Claim C7. For every entry, data only grows during a solve: for a state \<open>s\<close> of a
  solve and any state \<open>s'\<close> reached from it by further steps, the data of an entry
  in \<open>s\<close> is an initial part of its data in \<open>s'\<close>, so every value is still there
  and in its place; and in neither state does a value appear twice.
\<close>

theorem data_only_grows:
  "later emptySolver s \<Longrightarrow> later s s' \<Longrightarrow>
     prefix (dataOf s i) (dataOf s' i) \<and> set (dataOf s i) \<subseteq> set (dataOf s' i) \<and>
     distinct (dataOf s i) \<and> distinct (dataOf s' i)"
proof -
  assume a: "later emptySolver s" and b: "later s s'"
  have d0: "distinct (dataOf emptySolver i)" by (simp add: dataOf_def emptySolver_def)
  from later_extends [OF a] d0 have d1: "distinct (dataOf s i)" by (simp add: extends_def)
  from later_extends [OF b] d1 have "prefix (dataOf s i) (dataOf s' i)" "distinct (dataOf s' i)"
    by (simp_all add: extends_def)
  with d1 show ?thesis by (auto simp: set_mono_prefix)
qed

theorem data_only_grows_witness:
  "later emptySolver
     \<lparr> entries = [(''C(1)'', \<lparr> key = Num 1, data = [Num 1], rules = [] \<rparr>)], worklist = [''C(1)''], created = 1 \<rparr> \<and>
   later \<lparr> entries = [(''C(1)'', \<lparr> key = Num 1, data = [Num 1], rules = [] \<rparr>)], worklist = [''C(1)''], created = 1 \<rparr>
     \<lparr> entries = [(''C(1)'', \<lparr> key = Num 1, data = [Num 1, Num 2], rules = [] \<rparr>)], worklist = [''C(1)''], created = 2 \<rparr> \<and>
   prefix [Num 1] [Num 1, Num 2] \<and> set [Num 1] \<subseteq> set [Num 1, Num 2] \<and> distinct [Num 1] \<and> distinct [Num 1, Num 2]"
proof -
  let ?s1 = "\<lparr> entries = [(''C(1)'', \<lparr> key = Num 1, data = [Num 1], rules = [] \<rparr>)], worklist = [''C(1)''], created = 1 \<rparr>"
  let ?s2 = "\<lparr> entries = [(''C(1)'', \<lparr> key = Num 1, data = [Num 1, Num 2], rules = [] \<rparr>)], worklist = [''C(1)''], created = 2 \<rparr>"
  have 1: "defineRule emptyIndex (Rule (Constant (Num 1)) (ExpressionReference (NumericConstant 1 0))) emptySolver = Inr ?s1"
    by (simp add: run_simps)
  have 2: "defineRule emptyIndex (Rule (Constant (Num 2)) (ExpressionReference (NumericConstant 1 0))) ?s1 = Inr ?s2"
    by (simp add: run_simps)
  have a: "later emptySolver ?s1" using later.defined [OF later.here 1] .
  have b: "later ?s1 ?s2" using later.defined [OF later.here 2] .
  have "dataOf ?s1 ''C(1)'' = [Num 1]" "dataOf ?s2 ''C(1)'' = [Num 1, Num 2]"
    by (simp_all add: dataOf_def)
  with data_only_grows [OF a b, of "''C(1)''"] a b show ?thesis by simp
qed

section \<open>A single constant rule\<close>

text \<open>
  Claim C9 (scenario B). For a tree whose root has label 1 and passes scope
  resolution, and the single rule with the constant 1 on the left and the root as
  an expression reference on the right, the solve returns the analysis with the
  one entry \<^verbatim>\<open>C(1)\<close> whose values are exactly \<^verbatim>\<open>[1]\<close>.
\<close>

theorem scenario_B:
  "label expression = 1 \<Longrightarrow> collectExpressions expression Map.empty emptyIndex = Inr idx \<Longrightarrow>
   solve localeCompare expression [Rule (Constant (Num 1)) (ExpressionReference expression)]
     = Inr [(''C(1)'', [Num 1])]"
  by (simp add: run_simps drain.simps)

theorem scenario_B_witness:
  "label (FnExpression 1 ''x'' (VariableExpression 2 ''x'')) = 1 \<and>
   solve codeUnitCompare (FnExpression 1 ''x'' (VariableExpression 2 ''x''))
     [Rule (Constant (Num 1)) (ExpressionReference (FnExpression 1 ''x'' (VariableExpression 2 ''x'')))]
     = Inr [(''C(1)'', [Num 1])]"
proof -
  have "\<exists>idx. collectExpressions (FnExpression 1 ''x'' (VariableExpression 2 ''x''))
                 Map.empty emptyIndex = Inr idx"
    by (simp add: run_simps)
  then obtain idx where
    "collectExpressions (FnExpression 1 ''x'' (VariableExpression 2 ''x'')) Map.empty emptyIndex
       = Inr idx" ..
  from scenario_B [OF _ this, of codeUnitCompare] show ?thesis by simp
qed

section \<open>The loop visits an entry once\<close>

lemma worklist_getOrCreateEntry [simp]: "worklist (snd (getOrCreateEntry c k s)) = worklist s"
  by (simp add: getOrCreateEntry_eq)

lemma worklist_getEntryFromReference:
  "getEntryFromReference idx ref s = Inr (i, s') \<Longrightarrow> worklist s' = worklist s"
  by (auto simp: getEntryFromReference_def getOrCreateEntry_eq
      split: Reference.splits option.splits if_splits)

lemma worklist_getEntriesFromReferences:
  "getEntriesFromReferences idx refs s = Inr (is, s') \<Longrightarrow> worklist s' = worklist s"
proof (induction refs arbitrary: s "is")
  case Nil
  then show ?case by simp
next
  case (Cons r refs)
  from Cons.prems obtain i s1 where 1: "getEntryFromReference idx r s = Inr (i, s1)"
    by (cases "getEntryFromReference idx r s") auto
  with Cons.prems obtain is' where 2: "getEntriesFromReferences idx refs s1 = Inr (is', s')"
    by (cases "getEntriesFromReferences idx refs s1") auto
  from worklist_getEntryFromReference [OF 1] Cons.IH [OF 2] show ?case by simp
qed

lemma worklist_addRule [simp]: "worklist (addRule r i s) = worklist s"
  by (simp add: addRule_def)

lemma worklist_fold_addRule [simp]: "worklist (fold (addRule r) is s) = worklist s"
  by (induction "is" arbitrary: s) simp_all

lemma distinct_worklist_enactRule:
  "distinct (worklist s) \<Longrightarrow> distinct (worklist (enactRule t s))"
  using worklist_enactRule [of t s] by auto

lemma distinct_worklist_defineRule:
  assumes "defineRule idx rule s = Inr s'" and "distinct (worklist s)"
  shows "distinct (worklist s')"
proof (cases rule)
  case (Rule l r)
  from assms(1) Rule obtain rhs s1 where 1: "getEntryFromReference idx r s = Inr (rhs, s1)"
    by (cases "getEntryFromReference idx r s") auto
  from worklist_getEntryFromReference [OF 1] assms(2) have d1: "distinct (worklist s1)" by simp
  show ?thesis
  proof (cases l)
    case (Constant c)
    with assms(1) Rule 1
    have "s' = enactRule \<lparr> lhs = Fixed [c], rhs = rhs \<rparr> (s1\<lparr> created := Suc (created s1) \<rparr>)"
      by simp
    with d1 show ?thesis by (simp add: distinct_worklist_enactRule)
  next
    case (Dynamic f deps)
    with assms(1) Rule 1 obtain ds s2 where 2: "getEntriesFromReferences idx deps s1 = Inr (ds, s2)"
      by (cases "getEntriesFromReferences idx deps s1") auto
    with assms(1) Rule 1 Dynamic have "s' = enactRule \<lparr> lhs = Computed f ds, rhs = rhs \<rparr>
        (fold (addRule (created s2, \<lparr> lhs = Computed f ds, rhs = rhs \<rparr>)) ds
           (s2\<lparr> created := Suc (created s2) \<rparr>))"
      by (simp add: Let_def)
    with d1 worklist_getEntriesFromReferences [OF 2] show ?thesis
      by (simp add: distinct_worklist_enactRule)
  next
    case (Ref lref)
    with assms(1) Rule 1 obtain i s2 where 2: "getEntryFromReference idx lref s1 = Inr (i, s2)"
      by (cases "getEntryFromReference idx lref s1") auto
    with assms(1) Rule 1 Ref have "s' = enactRule \<lparr> lhs = Live i, rhs = rhs \<rparr>
        (addRule (created s2, \<lparr> lhs = Live i, rhs = rhs \<rparr>) i (s2\<lparr> created := Suc (created s2) \<rparr>))"
      by (simp add: Let_def)
    with d1 worklist_getEntryFromReference [OF 2] show ?thesis
      by (simp add: distinct_worklist_enactRule)
  qed
qed

text \<open>
  In every state of a solve the set \<^verbatim>\<open>worklist\<close> holds an entry at most once; the
  loop visits its positions one after the other, so it visits no entry twice.
\<close>

lemma worklist_holds_entry_once: "later emptySolver s \<Longrightarrow> distinct (worklist s)"
proof (induction emptySolver s rule: later.induct)
  case here
  show ?case by (simp add: emptySolver_def)
next
  case (enacted s' t)
  then show ?case by (simp add: distinct_worklist_enactRule)
next
  case (defined s' idx r s'')
  then show ?case using distinct_worklist_defineRule by blast
qed

text \<open>
  Claim C1 says that the loop ends in a fixpoint. On the four rules it does not.
  After seeding, the set \<^verbatim>\<open>worklist\<close> holds \<^verbatim>\<open>C(1)\<close> and \<^verbatim>\<open>C(2)\<close>. Visiting
  \<^verbatim>\<open>C(1)\<close> copies 1 to \<^verbatim>\<open>C(3)\<close>, which joins the set; visiting \<^verbatim>\<open>C(2)\<close> adds 2 to
  \<^verbatim>\<open>C(1)\<close>, which is a member already and so is not visited again. The loop ends
  with \<^verbatim>\<open>C(3) = [1]\<close> although \<^verbatim>\<open>C(1) = [1, 2]\<close>: the rule stored with \<^verbatim>\<open>C(1)\<close>,
  enacted once more, would still add 2 to \<^verbatim>\<open>C(3)\<close>.
\<close>

theorem drain_visits_entry_once:
  "solve codeUnitCompare sumTree chainRules
     = Inr [(''C(1)'', [Num 1, Num 2]), (''C(2)'', [Num 2]), (''C(3)'', [Num 1])] \<and>
   map_sum (\<lambda>e. e) (\<lambda>s. (worklist s, rulesOf s ''C(1)'')) (drained sumTree chainRules)
     = Inr ([''C(1)'', ''C(2)'', ''C(3)''], [(0, \<lparr> lhs = Live ''C(1)'', rhs = ''C(3)'' \<rparr>)]) \<and>
   map_sum (\<lambda>e. e) (\<lambda>s. dataOf (enactRule \<lparr> lhs = Live ''C(1)'', rhs = ''C(3)'' \<rparr> s) ''C(3)'')
     (drained sumTree chainRules)
     = Inr [Num 1, Num 2]"
  by (simp add: sumTree_def chainRules_def run_simps drain.simps)

text \<open>
  The same happens to a rule that depends on the entry it writes to (scenario F
  of the description): a callback that adds the number of values seen so far, up
  to five values, is run when the rule is defined and once more when the entry is
  visited, and never again.
\<close>

lemma self_dependency_stops_early:
  "solve codeUnitCompare sumTree
     [Rule (Dynamic (\<lambda>ds. if length (hd ds) < 5 then [Num (int (length (hd ds)))] else [])
              [ExpressionReference sumTree])
           (ExpressionReference sumTree)]
     = Inr [(''C(1)'', [Num 0, Num 1])]"
  by (simp add: sumTree_def run_simps drain.simps)

text \<open>
  Claim C2 says that the order of the rules does not change the final analysis.
  The same four rules with the two constant rules swapped put \<^verbatim>\<open>C(2)\<close> before
  \<^verbatim>\<open>C(1)\<close> in the set, and then \<^verbatim>\<open>C(3)\<close> receives both values.
\<close>

theorem rule_order_changes_result:
  "mset chainRulesSwapped = mset chainRules \<and>
   solve codeUnitCompare sumTree chainRules
     = Inr [(''C(1)'', [Num 1, Num 2]), (''C(2)'', [Num 2]), (''C(3)'', [Num 1])] \<and>
   solve codeUnitCompare sumTree chainRulesSwapped
     = Inr [(''C(1)'', [Num 1, Num 2]), (''C(2)'', [Num 2]), (''C(3)'', [Num 1, Num 2])]"
  by (simp add: sumTree_def chainRules_def chainRulesSwapped_def run_simps drain.simps)

section \<open>Failures of scope resolution\<close>

lemma dom_extendContext [simp]: "dom (extendContext ctx l names) = dom ctx \<union> set names"
  unfolding extendContext_def by (induction names arbitrary: ctx) auto

lemma contextGet_None:
  "contextGet ctx name = None \<longleftrightarrow> name \<notin> dom ctx \<and> name \<notin> set objectPrototypeKeys"
  by (auto simp: contextGet_def split: option.splits)

lemma collectExpressions_scopeErrors:
  "(scopeErrors (dom ctx) e \<noteq> [] \<longrightarrow>
      collectExpressions e ctx idx = Inl (hd (scopeErrors (dom ctx) e))) \<and>
   (scopeErrors (dom ctx) e = [] \<longrightarrow> (\<exists>idx'. collectExpressions e ctx idx = Inr idx'))"
proof (induction e arbitrary: ctx idx)
  case (VariableExpression l name)
  show ?case
  proof (cases "contextGet ctx name")
    case None
    then show ?thesis using contextGet_None [of ctx name] by auto
  next
    case (Some b)
    then have "\<not> (name \<notin> dom ctx \<and> name \<notin> set objectPrototypeKeys)"
      using contextGet_None [of ctx name] by simp
    with Some show ?thesis by auto
  qed
next
  case (OperationExpression l oper left right)
  let ?idx = "register (OperationExpression l oper left right) idx"
  show ?case
  proof (cases "scopeErrors (dom ctx) left = []")
    case True
    with OperationExpression.IH(1) [of ctx ?idx]
    obtain idx1 where "collectExpressions left ctx ?idx = Inr idx1" by auto
    with True OperationExpression.IH(2) [of ctx idx1] show ?thesis by auto
  next
    case False
    with OperationExpression.IH(1) [of ctx ?idx] show ?thesis by auto
  qed
next
  case (IfExpression l c t e)
  let ?idx = "register (IfExpression l c t e) idx"
  show ?case
  proof (cases "scopeErrors (dom ctx) c = []")
    case True
    with IfExpression.IH(1) [of ctx ?idx]
    obtain idx1 where 1: "collectExpressions c ctx ?idx = Inr idx1" by auto
    show ?thesis
    proof (cases "scopeErrors (dom ctx) t = []")
      case True2: True
      with IfExpression.IH(2) [of ctx idx1]
      obtain idx2 where "collectExpressions t ctx idx1 = Inr idx2" by auto
      with True True2 1 IfExpression.IH(3) [of ctx idx2] show ?thesis by auto
    next
      case False
      with True 1 IfExpression.IH(2) [of ctx idx1] show ?thesis by auto
    qed
  next
    case False
    with IfExpression.IH(1) [of ctx ?idx] show ?thesis by auto
  qed
next
  case (FnExpression l v b)
  from FnExpression.IH [of "extendContext ctx l [v]" "register (FnExpression l v b) idx"]
  show ?case by simp
next
  case (FunExpression l n v b)
  from FunExpression.IH [of "extendContext ctx l [n, v]" "register (FunExpression l n v b) idx"]
  show ?case by (auto simp: insert_commute)
next
  case (ApplicationExpression l c a)
  let ?idx = "register (ApplicationExpression l c a) idx"
  show ?case
  proof (cases "scopeErrors (dom ctx) c = []")
    case True
    with ApplicationExpression.IH(1) [of ctx ?idx]
    obtain idx1 where "collectExpressions c ctx ?idx = Inr idx1" by auto
    with True ApplicationExpression.IH(2) [of ctx idx1] show ?thesis by auto
  next
    case False
    with ApplicationExpression.IH(1) [of ctx ?idx] show ?thesis by auto
  qed
next
  case (LetExpression l v a b)
  let ?idx = "register (LetExpression l v a b) idx"
  show ?case
  proof (cases "scopeErrors (dom ctx) a = []")
    case True
    with LetExpression.IH(1) [of ctx ?idx]
    obtain idx1 where "collectExpressions a ctx ?idx = Inr idx1" by auto
    with True LetExpression.IH(2) [of "extendContext ctx l [v]" idx1] show ?thesis by auto
  next
    case False
    with LetExpression.IH(1) [of ctx ?idx] show ?thesis by auto
  qed
qed simp_all

lemma unbound_scopeErrors:
  "(l, n) \<in> set (unboundVariables bound e) \<Longrightarrow> n \<notin> set objectPrototypeKeys \<Longrightarrow>
     UnboundVariable l n \<in> set (scopeErrors bound e)"
  by (induction bound e rule: unboundVariables.induct) (auto split: if_splits)

lemma scopeErrors_unbound:
  "UnboundVariable l n \<in> set (scopeErrors bound e) \<Longrightarrow> (l, n) \<in> set (unboundVariables bound e)"
  by (induction bound e rule: unboundVariables.induct) (auto split: if_splits)

lemma colliding_scopeErrors:
  "NameCollision l n \<in> set (scopeErrors bound e) \<longleftrightarrow> (l, n) \<in> set (collidingFuns e)"
  by (induction bound e rule: unboundVariables.induct) (auto split: if_splits)

lemma scopeErrors_kinds:
  "err \<in> set (scopeErrors bound e) \<Longrightarrow>
     (\<exists>l n. err = UnboundVariable l n) \<or> (\<exists>l n. err = NameCollision l n)"
  by (induction bound e rule: unboundVariables.induct) (auto split: if_splits)

lemma solve_scope_error:
  assumes "scopeErrors {} expression \<noteq> []"
  shows "solve localeCompare expression rs = Inl (hd (scopeErrors {} expression))"
proof -
  from assms collectExpressions_scopeErrors [of Map.empty expression emptyIndex]
  have "collectExpressions expression Map.empty emptyIndex = Inl (hd (scopeErrors {} expression))"
    by simp
  then show ?thesis by (simp add: solve_def drained_def seeded_def)
qed

text \<open>
  Claim C4, as amended. A tree with a \<^verbatim>\<open>var\<close> node that no enclosing binder binds
  (and whose name is not an inherited property of objects) makes the solve fail,
  whatever the rules are, so no rule is run and there is no analysis. The error is
  the one of the first offending node of the traversal: \<^verbatim>\<open>UnboundVariable\<close> or
  \<^verbatim>\<open>NameCollision\<close>, and \<^verbatim>\<open>UnboundVariable\<close> whenever no \<^verbatim>\<open>fun\<close> node uses one
  name twice.
\<close>

theorem unbound_variable_aborts:
  "(l, n) \<in> set (unboundVariables {} expression) \<Longrightarrow> n \<notin> set objectPrototypeKeys \<Longrightarrow>
   \<exists>err. (\<forall>localeCompare rs. solve localeCompare expression rs = Inl err) \<and>
     err = hd (scopeErrors {} expression) \<and>
     ((\<exists>l' n'. err = UnboundVariable l' n') \<or> (\<exists>l' n'. err = NameCollision l' n')) \<and>
     (collidingFuns expression = [] \<longrightarrow> (\<exists>l' n'. err = UnboundVariable l' n'))"
proof -
  assume a: "(l, n) \<in> set (unboundVariables {} expression)" and b: "n \<notin> set objectPrototypeKeys"
  let ?err = "hd (scopeErrors {} expression)"
  from unbound_scopeErrors [OF a b] have ne: "scopeErrors {} expression \<noteq> []" by auto
  then have mem: "?err \<in> set (scopeErrors {} expression)" by simp
  have 1: "\<forall>localeCompare rs. solve localeCompare expression rs = Inl ?err"
    using solve_scope_error [OF ne] by simp
  have 2: "(\<exists>l' n'. ?err = UnboundVariable l' n') \<or> (\<exists>l' n'. ?err = NameCollision l' n')"
    using scopeErrors_kinds [OF mem] .
  have 3: "collidingFuns expression = [] \<longrightarrow> (\<exists>l' n'. ?err = UnboundVariable l' n')"
  proof
    assume c: "collidingFuns expression = []"
    have "\<not> (\<exists>l' n'. ?err = NameCollision l' n')"
    proof
      assume "\<exists>l' n'. ?err = NameCollision l' n'"
      then obtain l' n' where "?err = NameCollision l' n'" by blast
      with mem have "NameCollision l' n' \<in> set (scopeErrors {} expression)" by simp
      with c show False by (simp add: colliding_scopeErrors)
    qed
    with 2 show "\<exists>l' n'. ?err = UnboundVariable l' n'" by blast
  qed
  from 1 2 3 show ?thesis by blast
qed

theorem unbound_variable_aborts_witness:
  "(2, ''y'') \<in> set (unboundVariables {} (FnExpression 1 ''x'' (VariableExpression 2 ''y''))) \<and>
   ''y'' \<notin> set objectPrototypeKeys \<and>
   collidingFuns (FnExpression 1 ''x'' (VariableExpression 2 ''y'')) = [] \<and>
   solve codeUnitCompare (FnExpression 1 ''x'' (VariableExpression 2 ''y'')) []
     = Inl (UnboundVariable 2 ''y'')"
proof -
  have a: "(2, ''y'') \<in> set (unboundVariables {} (FnExpression 1 ''x'' (VariableExpression 2 ''y'')))"
    by simp
  have b: "''y'' \<notin> set objectPrototypeKeys" by (simp add: objectPrototypeKeys_def)
  have c: "hd (scopeErrors {} (FnExpression 1 ''x'' (VariableExpression 2 ''y''))) = UnboundVariable 2 ''y''"
    by (simp add: objectPrototypeKeys_def)
  from unbound_variable_aborts [OF a b] c
  have "solve codeUnitCompare (FnExpression 1 ''x'' (VariableExpression 2 ''y'')) []
          = Inl (UnboundVariable 2 ''y'')"
    by metis
  with a b show ?thesis by simp
qed

text \<open>
  Claim C4 as stated fails: in \<^verbatim>\<open>((fun f f => 1) y)\<close> the variable \<^verbatim>\<open>y\<close> is
  unbound, but the traversal reaches the \<^verbatim>\<open>fun\<close> node first and the solve fails
  with \<^verbatim>\<open>NameCollision\<close>.
\<close>

theorem unbound_variable_counterexample:
  "(4, ''y'') \<in> set (unboundVariables {}
      (ApplicationExpression 1 (FunExpression 2 ''f'' ''f'' (NumericConstant 3 1))
         (VariableExpression 4 ''y''))) \<and>
   solve codeUnitCompare
      (ApplicationExpression 1 (FunExpression 2 ''f'' ''f'' (NumericConstant 3 1))
         (VariableExpression 4 ''y'')) []
     = Inl (NameCollision 2 ''f'')"
  by (simp add: run_simps)

text \<open>
  A \<^verbatim>\<open>var\<close> node named like an inherited property is not reported at all: the
  program \<^verbatim>\<open>constructor\<close> passes scope resolution.
\<close>

lemma inherited_name_is_not_reported:
  "solve codeUnitCompare (VariableExpression 1 ''constructor'') [] = Inr [] \<and>
   unboundVariables {} (VariableExpression 1 ''constructor'') = [(1, ''constructor'')]"
  by (simp add: run_simps drain.simps)

section \<open>What a variable resolves to\<close>

text \<open>
  After a successful traversal of a tree with distinct labels, a \<^verbatim>\<open>var\<close> node that
  the tree itself does not bind is recorded with what the context in which the
  traversal started gives for its name.
\<close>

lemma unbound_not_bound:
  "(k, n) \<in> set (unboundVariables bound e) \<Longrightarrow> n \<notin> bound"
  by (induction bound e rule: unboundVariables.induct) (auto split: if_splits)

lemma unbound_is_node:
  "(k, n) \<in> set (unboundVariables bound e) \<Longrightarrow> VariableExpression k n \<in> set (nodes e)"
  by (induction bound e rule: unboundVariables.induct) (auto split: if_splits)

lemma labelOf_register [simp]:
  "labelOfvariableDeclaration (register e idx) = labelOfvariableDeclaration idx"
  by (simp add: register_def)

lemma collectExpressions_other:
  "collectExpressions e ctx idx = Inr idx' \<Longrightarrow> v \<notin> set (nodes e) \<Longrightarrow>
     labelOfvariableDeclaration idx' v = labelOfvariableDeclaration idx v"
proof (induction e arbitrary: ctx idx idx')
  case (VariableExpression l name)
  then show ?case by (auto split: option.splits)
next
  case (OperationExpression l oper a b)
  from OperationExpression.prems(1) obtain idx1 where
    1: "collectExpressions a ctx (register (OperationExpression l oper a b) idx) = Inr idx1"
    and 2: "collectExpressions b ctx idx1 = Inr idx'"
    by (cases "collectExpressions a ctx (register (OperationExpression l oper a b) idx)") auto
  from OperationExpression.IH(1) [OF 1] OperationExpression.IH(2) [OF 2] OperationExpression.prems(2)
  show ?case by simp
next
  case (IfExpression l c t e)
  from IfExpression.prems(1) obtain idx1 where
    1: "collectExpressions c ctx (register (IfExpression l c t e) idx) = Inr idx1"
    by (cases "collectExpressions c ctx (register (IfExpression l c t e) idx)") auto
  with IfExpression.prems(1) obtain idx2 where
    2: "collectExpressions t ctx idx1 = Inr idx2" and 3: "collectExpressions e ctx idx2 = Inr idx'"
    by (cases "collectExpressions t ctx idx1") auto
  from IfExpression.IH(1) [OF 1] IfExpression.IH(2) [OF 2] IfExpression.IH(3) [OF 3]
    IfExpression.prems(2)
  show ?case by simp
next
  case (FnExpression l x b)
  from FnExpression.IH [of "extendContext ctx l [x]" "register (FnExpression l x b) idx" idx']
    FnExpression.prems
  show ?case by simp
next
  case (FunExpression l f x b)
  from FunExpression.IH [of "extendContext ctx l [f, x]" "register (FunExpression l f x b) idx" idx']
    FunExpression.prems
  show ?case by (simp split: if_splits)
next
  case (ApplicationExpression l c a)
  from ApplicationExpression.prems(1) obtain idx1 where
    1: "collectExpressions c ctx (register (ApplicationExpression l c a) idx) = Inr idx1"
    and 2: "collectExpressions a ctx idx1 = Inr idx'"
    by (cases "collectExpressions c ctx (register (ApplicationExpression l c a) idx)") auto
  from ApplicationExpression.IH(1) [OF 1] ApplicationExpression.IH(2) [OF 2]
    ApplicationExpression.prems(2)
  show ?case by simp
next
  case (LetExpression l x a b)
  from LetExpression.prems(1) obtain idx1 where
    1: "collectExpressions a ctx (register (LetExpression l x a b) idx) = Inr idx1"
    and 2: "collectExpressions b (extendContext ctx l [x]) idx1 = Inr idx'"
    by (cases "collectExpressions a ctx (register (LetExpression l x a b) idx)") auto
  from LetExpression.IH(1) [OF 1] LetExpression.IH(2) [OF 2] LetExpression.prems(2)
  show ?case by simp
qed auto

lemma label_in_nodes: "v \<in> set (nodes e) \<Longrightarrow> label v \<in> label ` set (nodes e)"
  by simp

lemma contextGet_extend_other:
  "n \<notin> set names \<Longrightarrow> contextGet (extendContext ctx l names) n = contextGet ctx n"
proof -
  have "n \<notin> set names \<Longrightarrow> fold (\<lambda>name c. c(name \<mapsto> l)) names ctx n = ctx n" for ctx
    by (induction names arbitrary: ctx) auto
  then show "n \<notin> set names \<Longrightarrow> ?thesis" by (simp add: contextGet_def extendContext_def)
qed

lemma collectExpressions_resolves:
  "collectExpressions e ctx idx = Inr idx' \<Longrightarrow> distinct (map label (nodes e)) \<Longrightarrow>
   (k, n) \<in> set (unboundVariables bound e) \<Longrightarrow>
     labelOfvariableDeclaration idx' (VariableExpression k n) = contextGet ctx n"
proof (induction e arbitrary: ctx idx idx' bound)
  case (VariableExpression l name)
  then show ?case by (auto split: option.splits if_splits)
next
  case (OperationExpression l oper a b)
  from OperationExpression.prems(1) obtain idx1 where
    1: "collectExpressions a ctx (register (OperationExpression l oper a b) idx) = Inr idx1"
    and 2: "collectExpressions b ctx idx1 = Inr idx'"
    by (cases "collectExpressions a ctx (register (OperationExpression l oper a b) idx)") auto
  from OperationExpression.prems(2) have d: "distinct (map label (nodes a))"
    "distinct (map label (nodes b))" "label ` set (nodes a) \<inter> label ` set (nodes b) = {}"
    by auto
  from OperationExpression.prems(3) consider "(k, n) \<in> set (unboundVariables bound a)"
    | "(k, n) \<in> set (unboundVariables bound b)" by auto
  then show ?case
  proof cases
    case 1: 1
    from unbound_is_node [OF 1] d(3) have "VariableExpression k n \<notin> set (nodes b)"
      using label_in_nodes by blast
    from collectExpressions_other [OF 2 this] OperationExpression.IH(1) [OF \<open>collectExpressions a ctx (register (OperationExpression l oper a b) idx) = Inr idx1\<close> d(1) 1]
    show ?thesis by simp
  next
    case 2: 2
    from OperationExpression.IH(2) [OF \<open>collectExpressions b ctx idx1 = Inr idx'\<close> d(2) 2]
    show ?thesis .
  qed
next
  case (FnExpression l x b)
  from FnExpression.prems have
    1: "collectExpressions b (extendContext ctx l [x]) (register (FnExpression l x b) idx) = Inr idx'"
    and d: "distinct (map label (nodes b))"
    and u: "(k, n) \<in> set (unboundVariables (insert x bound) b)"
    by auto
  from unbound_not_bound [OF u] have "n \<notin> set [x]" by simp
  from FnExpression.IH [OF 1 d u] contextGet_extend_other [OF this] show ?case by simp
next
  case (FunExpression l f x b)
  from FunExpression.prems have
    1: "collectExpressions b (extendContext ctx l [f, x]) (register (FunExpression l f x b) idx) = Inr idx'"
    and d: "distinct (map label (nodes b))"
    and u: "(k, n) \<in> set (unboundVariables (insert f (insert x bound)) b)"
    by (auto split: if_splits)
  from unbound_not_bound [OF u] have "n \<notin> set [f, x]" by simp
  from FunExpression.IH [OF 1 d u] contextGet_extend_other [OF this] show ?case by simp
next
  case (ApplicationExpression l c a)
  from ApplicationExpression.prems(1) obtain idx1 where
    1: "collectExpressions c ctx (register (ApplicationExpression l c a) idx) = Inr idx1"
    and 2: "collectExpressions a ctx idx1 = Inr idx'"
    by (cases "collectExpressions c ctx (register (ApplicationExpression l c a) idx)") auto
  from ApplicationExpression.prems(2) have d: "distinct (map label (nodes c))"
    "distinct (map label (nodes a))" "label ` set (nodes c) \<inter> label ` set (nodes a) = {}"
    by auto
  from ApplicationExpression.prems(3) consider (c) "(k, n) \<in> set (unboundVariables bound c)"
    | (a) "(k, n) \<in> set (unboundVariables bound a)" by auto
  then show ?case
  proof cases
    case c
    from unbound_is_node [OF c] d(3) have "VariableExpression k n \<notin> set (nodes a)"
      using label_in_nodes by blast
    from collectExpressions_other [OF 2 this] ApplicationExpression.IH(1) [OF 1 d(1) c]
    show ?thesis by simp
  next
    case a
    from ApplicationExpression.IH(2) [OF 2 d(2) a] show ?thesis .
  qed
next
  case (LetExpression l x a b)
  from LetExpression.prems(1) obtain idx1 where
    1: "collectExpressions a ctx (register (LetExpression l x a b) idx) = Inr idx1"
    and 2: "collectExpressions b (extendContext ctx l [x]) idx1 = Inr idx'"
    by (cases "collectExpressions a ctx (register (LetExpression l x a b) idx)") auto
  from LetExpression.prems(2) have d: "distinct (map label (nodes a))"
    "distinct (map label (nodes b))" "label ` set (nodes a) \<inter> label ` set (nodes b) = {}"
    by auto
  from LetExpression.prems(3) consider (a) "(k, n) \<in> set (unboundVariables bound a)"
    | (b) "(k, n) \<in> set (unboundVariables (insert x bound) b)" by auto
  then show ?case
  proof cases
    case a
    from unbound_is_node [OF a] d(3) have "VariableExpression k n \<notin> set (nodes b)"
      using label_in_nodes by blast
    from collectExpressions_other [OF 2 this] LetExpression.IH(1) [OF 1 d(1) a]
    show ?thesis by simp
  next
    case b
    from unbound_not_bound [OF b] have "n \<notin> set [x]" by simp
    from LetExpression.IH(2) [OF 2 d(2) b] contextGet_extend_other [OF this] show ?thesis by simp
  qed
next
  case (IfExpression l c t e)
  from IfExpression.prems(1) obtain idx1 where
    1: "collectExpressions c ctx (register (IfExpression l c t e) idx) = Inr idx1"
    by (cases "collectExpressions c ctx (register (IfExpression l c t e) idx)") auto
  with IfExpression.prems(1) obtain idx2 where
    2: "collectExpressions t ctx idx1 = Inr idx2" and 3: "collectExpressions e ctx idx2 = Inr idx'"
    by (cases "collectExpressions t ctx idx1") auto
  from IfExpression.prems(2) have d: "distinct (map label (nodes c))"
    "distinct (map label (nodes t))" "distinct (map label (nodes e))"
    "label ` set (nodes c) \<inter> label ` set (nodes t) = {}"
    "label ` set (nodes c) \<inter> label ` set (nodes e) = {}"
    "label ` set (nodes t) \<inter> label ` set (nodes e) = {}"
    by auto
  from IfExpression.prems(3) consider (c) "(k, n) \<in> set (unboundVariables bound c)"
    | (t) "(k, n) \<in> set (unboundVariables bound t)"
    | (e) "(k, n) \<in> set (unboundVariables bound e)" by auto
  then show ?case
  proof cases
    case c
    from unbound_is_node [OF c] d(4,5) have "VariableExpression k n \<notin> set (nodes t)"
      "VariableExpression k n \<notin> set (nodes e)"
      using label_in_nodes by blast+
    from collectExpressions_other [OF 2 this(1)] collectExpressions_other [OF 3 this(2)]
      IfExpression.IH(1) [OF 1 d(1) c]
    show ?thesis by simp
  next
    case t
    from unbound_is_node [OF t] d(6) have "VariableExpression k n \<notin> set (nodes e)"
      using label_in_nodes by blast
    from collectExpressions_other [OF 3 this] IfExpression.IH(2) [OF 2 d(2) t]
    show ?thesis by simp
  next
    case e
    from IfExpression.IH(3) [OF 3 d(3) e] show ?thesis .
  qed
qed auto

lemma contextGet_fun:
  "contextGet (extendContext ctx l [name, variable]) name = Some (Declared l) \<and>
   contextGet (extendContext ctx l [name, variable]) variable = Some (Declared l)"
  by (simp add: contextGet_def extendContext_def)

lemma scopeErrors_offenders:
  "\<forall>p\<in>set (unboundVariables bound e). snd p \<notin> set objectPrototypeKeys \<Longrightarrow>
     scopeErrors bound e = offenders bound e"
  by (induction bound e rule: unboundVariables.induct) (auto split: if_splits)

lemma scopeErrors_not_inherited:
  "UnboundVariable l n \<in> set (scopeErrors bound e) \<Longrightarrow> n \<notin> set objectPrototypeKeys"
  by (induction bound e rule: unboundVariables.induct) (auto split: if_splits)

text \<open>
  Claim C5, as amended. A tree with a \<^verbatim>\<open>fun\<close> node whose function name is also
  its parameter makes the solve fail, whatever the rules are, with the error of
  an offending node of the tree: \<^verbatim>\<open>UnboundVariable\<close> of an unbound \<^verbatim>\<open>var\<close> node
  whose name is not a property every object inherits, or \<^verbatim>\<open>NameCollision\<close> of a
  \<^verbatim>\<open>fun\<close> node that uses one name twice. When no unbound \<^verbatim>\<open>var\<close> node of the
  tree bears a name that every object inherits (such as \<^verbatim>\<open>constructor\<close>), the
  error is that of the first offending node in the order of the traversal: it is
  \<^verbatim>\<open>NameCollision\<close> unless an unbound \<^verbatim>\<open>var\<close> node is visited before the first
  such \<^verbatim>\<open>fun\<close> node, and then it is \<^verbatim>\<open>UnboundVariable\<close>. In a \<^verbatim>\<open>fun\<close> node with
  two different names, every \<^verbatim>\<open>var\<close> node of the body that bears one of the two
  names and is not bound again inside the body is recorded with the label of the
  \<^verbatim>\<open>fun\<close> node (for a tree with distinct labels).
\<close>

theorem fun_scope:
  "((l, n) \<in> set (collidingFuns expression) \<longrightarrow>
      (\<exists>err. (\<forall>localeCompare rs. solve localeCompare expression rs = Inl err) \<and>
         ((\<exists>l' n'. err = UnboundVariable l' n' \<and> (l', n') \<in> set (unboundVariables {} expression) \<and>
                   n' \<notin> set objectPrototypeKeys) \<or>
          (\<exists>l' n'. err = NameCollision l' n' \<and> (l', n') \<in> set (collidingFuns expression))) \<and>
         ((\<forall>p\<in>set (unboundVariables {} expression). snd p \<notin> set objectPrototypeKeys) \<longrightarrow>
            err = hd (offenders {} expression)))) \<and>
   (name \<noteq> variable \<and> distinct (map label (nodes body)) \<and>
    collectExpressions (FunExpression lf name variable body) ctx idx = Inr idx' \<and>
    (k, m) \<in> set (unboundVariables {} body) \<and> (m = name \<or> m = variable) \<longrightarrow>
      labelOfvariableDeclaration idx' (VariableExpression k m) = Some (Declared lf))"
proof (intro conjI impI)
  assume a: "(l, n) \<in> set (collidingFuns expression)"
  let ?err = "hd (scopeErrors {} expression)"
  from a have "NameCollision l n \<in> set (scopeErrors {} expression)"
    by (simp add: colliding_scopeErrors)
  then have ne: "scopeErrors {} expression \<noteq> []" by auto
  then have mem: "?err \<in> set (scopeErrors {} expression)" by simp
  have 1: "\<forall>localeCompare rs. solve localeCompare expression rs = Inl ?err"
    using solve_scope_error [OF ne] by simp
  from scopeErrors_kinds [OF mem]
  have 2: "(\<exists>l' n'. ?err = UnboundVariable l' n' \<and> (l', n') \<in> set (unboundVariables {} expression) \<and>
                   n' \<notin> set objectPrototypeKeys) \<or>
          (\<exists>l' n'. ?err = NameCollision l' n' \<and> (l', n') \<in> set (collidingFuns expression))"
  proof
    assume "\<exists>l' n'. ?err = UnboundVariable l' n'"
    then obtain l' n' where e: "?err = UnboundVariable l' n'" by blast
    with mem have "UnboundVariable l' n' \<in> set (scopeErrors {} expression)" by simp
    from scopeErrors_unbound [OF this] scopeErrors_not_inherited [OF this] e
    show ?thesis by blast
  next
    assume "\<exists>l' n'. ?err = NameCollision l' n'"
    then obtain l' n' where e: "?err = NameCollision l' n'" by blast
    with mem have "NameCollision l' n' \<in> set (scopeErrors {} expression)" by simp
    then have "(l', n') \<in> set (collidingFuns expression)" by (simp add: colliding_scopeErrors)
    with e show ?thesis by blast
  qed
  have 3: "(\<forall>p\<in>set (unboundVariables {} expression). snd p \<notin> set objectPrototypeKeys) \<longrightarrow>
            ?err = hd (offenders {} expression)"
    by (simp add: scopeErrors_offenders)
  from 1 2 3 show "\<exists>err. (\<forall>localeCompare rs. solve localeCompare expression rs = Inl err) \<and>
         ((\<exists>l' n'. err = UnboundVariable l' n' \<and> (l', n') \<in> set (unboundVariables {} expression) \<and>
                   n' \<notin> set objectPrototypeKeys) \<or>
          (\<exists>l' n'. err = NameCollision l' n' \<and> (l', n') \<in> set (collidingFuns expression))) \<and>
         ((\<forall>p\<in>set (unboundVariables {} expression). snd p \<notin> set objectPrototypeKeys) \<longrightarrow>
            err = hd (offenders {} expression))"
    by (intro exI [of _ ?err] conjI)
next
  assume b: "name \<noteq> variable \<and> distinct (map label (nodes body)) \<and>
    collectExpressions (FunExpression lf name variable body) ctx idx = Inr idx' \<and>
    (k, m) \<in> set (unboundVariables {} body) \<and> (m = name \<or> m = variable)"
  then have 1: "collectExpressions body (extendContext ctx lf [name, variable])
                  (register (FunExpression lf name variable body) idx) = Inr idx'"
    by auto
  from b have d: "distinct (map label (nodes body))"
    and u: "(k, m) \<in> set (unboundVariables {} body)" and m: "m = name \<or> m = variable"
    by simp_all
  from collectExpressions_resolves [OF 1 d u] m contextGet_fun [of ctx lf name variable]
  show "labelOfvariableDeclaration idx' (VariableExpression k m) = Some (Declared lf)"
    by auto
qed

theorem fun_scope_witness:
  "(1, ''f'') \<in> set (collidingFuns (FunExpression 1 ''f'' ''f'' (VariableExpression 2 ''f''))) \<and>
   unboundVariables {} (FunExpression 1 ''f'' ''f'' (VariableExpression 2 ''f'')) = [] \<and>
   solve codeUnitCompare (FunExpression 1 ''f'' ''f'' (VariableExpression 2 ''f'')) []
     = Inl (NameCollision 1 ''f'') \<and>
   (2, ''f'') \<in> set (collidingFuns
      (ApplicationExpression 1 (FunExpression 2 ''f'' ''f'' (NumericConstant 3 1))
         (VariableExpression 4 ''y''))) \<and>
   unboundVariables {}
      (ApplicationExpression 1 (FunExpression 2 ''f'' ''f'' (NumericConstant 3 1))
         (VariableExpression 4 ''y'')) = [(4, ''y'')] \<and>
   ''y'' \<notin> set objectPrototypeKeys \<and>
   offenders {}
      (ApplicationExpression 1 (FunExpression 2 ''f'' ''f'' (NumericConstant 3 1))
         (VariableExpression 4 ''y'')) = [NameCollision 2 ''f'', UnboundVariable 4 ''y''] \<and>
   solve codeUnitCompare
      (ApplicationExpression 1 (FunExpression 2 ''f'' ''f'' (NumericConstant 3 1))
         (VariableExpression 4 ''y'')) []
     = Inl (NameCollision 2 ''f'') \<and>
   (\<exists>idx'. collectExpressions
       (FunExpression 1 ''f'' ''x''
          (ApplicationExpression 2 (VariableExpression 3 ''f'') (VariableExpression 4 ''x'')))
       Map.empty emptyIndex = Inr idx' \<and>
     labelOfvariableDeclaration idx' (VariableExpression 3 ''f'') = Some (Declared 1) \<and>
     labelOfvariableDeclaration idx' (VariableExpression 4 ''x'') = Some (Declared 1))"
proof -
  let ?e = "FunExpression 1 ''f'' ''f'' (VariableExpression 2 ''f'')"
  let ?g = "ApplicationExpression 1 (FunExpression 2 ''f'' ''f'' (NumericConstant 3 1))
         (VariableExpression 4 ''y'')"
  let ?b = "ApplicationExpression 2 (VariableExpression 3 ''f'') (VariableExpression 4 ''x'')"
  have a: "(1, ''f'') \<in> set (collidingFuns ?e)" by simp
  have c: "unboundVariables {} ?e = []" by simp
  have h: "hd (offenders {} ?e) = NameCollision 1 ''f''" by simp
  from fun_scope [of 1 "''f''" ?e, THEN conjunct1, rule_format, OF a]
  obtain err where e: "\<forall>localeCompare rs. solve localeCompare ?e rs = Inl err"
    "(\<forall>p\<in>set (unboundVariables {} ?e). snd p \<notin> set objectPrototypeKeys) \<longrightarrow>
       err = hd (offenders {} ?e)"
    by blast
  from e(2) h have "err = NameCollision 1 ''f''" by simp
  with e(1) have 1: "solve codeUnitCompare ?e [] = Inl (NameCollision 1 ''f'')" by simp
  have a2: "(2, ''f'') \<in> set (collidingFuns ?g)" by simp
  have c2: "unboundVariables {} ?g = [(4, ''y'')]" by simp
  have y: "''y'' \<notin> set objectPrototypeKeys" by (simp add: objectPrototypeKeys_def)
  have o2: "offenders {} ?g = [NameCollision 2 ''f'', UnboundVariable 4 ''y'']" by simp
  from fun_scope [of 2 "''f''" ?g, THEN conjunct1, rule_format, OF a2]
  obtain err2 where e2: "\<forall>localeCompare rs. solve localeCompare ?g rs = Inl err2"
    "(\<forall>p\<in>set (unboundVariables {} ?g). snd p \<notin> set objectPrototypeKeys) \<longrightarrow>
       err2 = hd (offenders {} ?g)"
    by blast
  from e2(2) c2 y o2 have "err2 = NameCollision 2 ''f''" by simp
  with e2(1) have 2: "solve codeUnitCompare ?g [] = Inl (NameCollision 2 ''f'')" by simp
  obtain idx' where i: "collectExpressions (FunExpression 1 ''f'' ''x'' ?b) Map.empty emptyIndex = Inr idx'"
    by (simp add: run_simps)
  have d: "distinct (map label (nodes ?b))" by simp
  have u: "(3, ''f'') \<in> set (unboundVariables {} ?b)" "(4, ''x'') \<in> set (unboundVariables {} ?b)"
    by simp_all
  have n: "''f'' \<noteq> ''x''" by simp
  from fun_scope [of _ _ _ "''f''" "''x''" ?b 1 Map.empty emptyIndex idx' 3 "''f''", THEN conjunct2] n d i u(1)
  have 3: "labelOfvariableDeclaration idx' (VariableExpression 3 ''f'') = Some (Declared 1)" by blast
  from fun_scope [of _ _ _ "''f''" "''x''" ?b 1 Map.empty emptyIndex idx' 4 "''x''", THEN conjunct2] n d i u(2)
  have 4: "labelOfvariableDeclaration idx' (VariableExpression 4 ''x'') = Some (Declared 1)" by blast
  from i 3 4 have p: "\<exists>idx'. collectExpressions (FunExpression 1 ''f'' ''x'' ?b) Map.empty emptyIndex
       = Inr idx' \<and>
     labelOfvariableDeclaration idx' (VariableExpression 3 ''f'') = Some (Declared 1) \<and>
     labelOfvariableDeclaration idx' (VariableExpression 4 ''x'') = Some (Declared 1)"
    by (intro exI [of _ idx'] conjI)
  from a c 1 a2 c2 y o2 2 p show ?thesis by (intro conjI)
qed

text \<open>
  An unbound \<^verbatim>\<open>var\<close> node whose name every object inherits does not throw, so it
  does not come before a collision: \<^verbatim>\<open>(constructor (fun f f => 1))\<close> fails with
  \<^verbatim>\<open>NameCollision\<close>.
\<close>

lemma inherited_name_does_not_preempt:
  "solve codeUnitCompare
     (ApplicationExpression 1 (VariableExpression 2 ''constructor'')
        (FunExpression 3 ''f'' ''f'' (NumericConstant 4 1))) []
     = Inl (NameCollision 3 ''f'')"
  by (simp add: run_simps)

text \<open>
  Claim C5 as stated fails: in \<^verbatim>\<open>(y (fun f f => 1))\<close> the \<^verbatim>\<open>fun\<close> node uses
  \<^verbatim>\<open>f\<close> twice, but the traversal reaches the unbound \<^verbatim>\<open>y\<close> first and the solve
  fails with \<^verbatim>\<open>UnboundVariable\<close>.
\<close>

theorem fun_scope_counterexample:
  "(3, ''f'') \<in> set (collidingFuns
      (ApplicationExpression 1 (VariableExpression 2 ''y'')
         (FunExpression 3 ''f'' ''f'' (NumericConstant 4 1)))) \<and>
   solve codeUnitCompare
      (ApplicationExpression 1 (VariableExpression 2 ''y'')
         (FunExpression 3 ''f'' ''f'' (NumericConstant 4 1))) []
     = Inl (UnboundVariable 2 ''y'')"
  by (simp add: run_simps)

section \<open>References and entries\<close>

lemma extendContext_apply:
  "extendContext ctx l names n = (if n \<in> set names then Some l else ctx n)"
proof -
  have "fold (\<lambda>name c. c(name \<mapsto> l)) names c n = (if n \<in> set names then Some l else c n)" for c
    by (induction names arbitrary: c) auto
  then show ?thesis by (simp add: extendContext_def)
qed

lemma later_getOrCreateEntry:
  assumes "later (snd (getOrCreateEntry c k s)) s2"
  shows "getOrCreateEntry c k s2 = (fst (getOrCreateEntry c k s), s2)"
proof -
  have "entryId c k \<in> fst ` set (entries (snd (getOrCreateEntry c k s)))"
    by (simp add: getOrCreateEntry_eq)
  moreover from later_extends [OF assms]
  have "prefix (map fst (entries (snd (getOrCreateEntry c k s)))) (map fst (entries s2))"
    by (simp add: extends_def)
  ultimately have "entryId c k \<in> fst ` set (entries s2)"
    by (metis (no_types, lifting) image_set set_mono_prefix subsetD)
  then show ?thesis by (simp add: getOrCreateEntry_eq)
qed

lemma bindings_is_node: "(v, b) \<in> set (bindings env e) \<Longrightarrow> v \<in> set (nodes e)"
  by (induction env e rule: bindings.induct) (auto split: option.splits)

lemma bindings_binds:
  "(v, b) \<in> set (bindings env e) \<Longrightarrow> \<forall>n b. env n = Some b \<longrightarrow> bindsName b n \<Longrightarrow>
     \<exists>k n. v = VariableExpression k n \<and> bindsName b n"
proof (induction env e rule: bindings.induct)
  case (3 env l name)
  then show ?case by (auto split: option.splits)
next
  case (6 env l variable body)
  have "\<forall>n b. (env(variable \<mapsto> FnExpression l variable body)) n = Some b \<longrightarrow> bindsName b n"
    using "6.prems"(2) by (auto simp: bindsName_def)
  moreover from "6.prems"(1)
  have "(v, b) \<in> set (bindings (env(variable \<mapsto> FnExpression l variable body)) body)" by simp
  ultimately show ?case using "6.IH" by blast
next
  case (7 env l name variable body)
  have "\<forall>n b. (env(name \<mapsto> FunExpression l name variable body,
                   variable \<mapsto> FunExpression l name variable body)) n = Some b \<longrightarrow> bindsName b n"
    using "7.prems"(2) by (auto simp: bindsName_def)
  moreover from "7.prems"(1)
  have "(v, b) \<in> set (bindings (env(name \<mapsto> FunExpression l name variable body,
                   variable \<mapsto> FunExpression l name variable body)) body)" by simp
  ultimately show ?case using "7.IH" by blast
next
  case (9 env l variable val body)
  have "\<forall>n b. (env(variable \<mapsto> LetExpression l variable val body)) n = Some b \<longrightarrow> bindsName b n"
    using "9.prems"(2) by (auto simp: bindsName_def)
  moreover from "9.prems"(1)
  consider "(v, b) \<in> set (bindings env val)"
    | "(v, b) \<in> set (bindings (env(variable \<mapsto> LetExpression l variable val body)) body)"
    by auto
  ultimately show ?case using "9.IH" "9.prems"(2) by blast
qed auto

lemma collectExpressions_binder:
  "collectExpressions e ctx idx = Inr idx' \<Longrightarrow> \<forall>n. ctx n = map_option label (env n) \<Longrightarrow>
   distinct (map label (nodes e)) \<Longrightarrow> (v, b) \<in> set (bindings env e) \<Longrightarrow>
     labelOfvariableDeclaration idx' v = Some (Declared (label b))"
proof (induction e arbitrary: ctx idx idx' env)
  case (VariableExpression l name)
  from VariableExpression.prems(4) have vb: "env name = Some b" "v = VariableExpression l name"
    by (auto split: option.splits)
  with VariableExpression.prems(2) have "ctx name = Some (label b)" by simp
  then have "contextGet ctx name = Some (Declared (label b))" by (simp add: contextGet_def)
  with VariableExpression.prems(1) vb show ?case by auto
next
  case (OperationExpression l oper x y)
  from OperationExpression.prems(1) obtain idx1 where
    1: "collectExpressions x ctx (register (OperationExpression l oper x y) idx) = Inr idx1"
    and 2: "collectExpressions y ctx idx1 = Inr idx'"
    by (cases "collectExpressions x ctx (register (OperationExpression l oper x y) idx)") auto
  from OperationExpression.prems(3) have d: "distinct (map label (nodes x))"
    "distinct (map label (nodes y))" "label ` set (nodes x) \<inter> label ` set (nodes y) = {}"
    by auto
  from OperationExpression.prems(4) consider (x) "(v, b) \<in> set (bindings env x)"
    | (y) "(v, b) \<in> set (bindings env y)" by auto
  then show ?case
  proof cases
    case x
    from bindings_is_node [OF x] d(3) have "v \<notin> set (nodes y)" using label_in_nodes by blast
    from collectExpressions_other [OF 2 this]
      OperationExpression.IH(1) [OF 1 OperationExpression.prems(2) d(1) x]
    show ?thesis by simp
  next
    case y
    from OperationExpression.IH(2) [OF 2 OperationExpression.prems(2) d(2) y] show ?thesis .
  qed
next
  case (IfExpression l c t e)
  from IfExpression.prems(1) obtain idx1 where
    1: "collectExpressions c ctx (register (IfExpression l c t e) idx) = Inr idx1"
    by (cases "collectExpressions c ctx (register (IfExpression l c t e) idx)") auto
  with IfExpression.prems(1) obtain idx2 where
    2: "collectExpressions t ctx idx1 = Inr idx2" and 3: "collectExpressions e ctx idx2 = Inr idx'"
    by (cases "collectExpressions t ctx idx1") auto
  from IfExpression.prems(3) have d: "distinct (map label (nodes c))"
    "distinct (map label (nodes t))" "distinct (map label (nodes e))"
    "label ` set (nodes c) \<inter> label ` set (nodes t) = {}"
    "label ` set (nodes c) \<inter> label ` set (nodes e) = {}"
    "label ` set (nodes t) \<inter> label ` set (nodes e) = {}"
    by auto
  from IfExpression.prems(4) consider (c) "(v, b) \<in> set (bindings env c)"
    | (t) "(v, b) \<in> set (bindings env t)" | (e) "(v, b) \<in> set (bindings env e)" by auto
  then show ?case
  proof cases
    case c
    from bindings_is_node [OF c] d(4,5) have "v \<notin> set (nodes t)" "v \<notin> set (nodes e)"
      using label_in_nodes by blast+
    from collectExpressions_other [OF 2 this(1)] collectExpressions_other [OF 3 this(2)]
      IfExpression.IH(1) [OF 1 IfExpression.prems(2) d(1) c]
    show ?thesis by simp
  next
    case t
    from bindings_is_node [OF t] d(6) have "v \<notin> set (nodes e)" using label_in_nodes by blast
    from collectExpressions_other [OF 3 this] IfExpression.IH(2) [OF 2 IfExpression.prems(2) d(2) t]
    show ?thesis by simp
  next
    case e
    from IfExpression.IH(3) [OF 3 IfExpression.prems(2) d(3) e] show ?thesis .
  qed
next
  case (FnExpression l x body)
  let ?n = "FnExpression l x body"
  from FnExpression.prems(1,3,4) have
    1: "collectExpressions body (extendContext ctx l [x]) (register ?n idx) = Inr idx'"
    and d: "distinct (map label (nodes body))"
    and u: "(v, b) \<in> set (bindings (env(x \<mapsto> ?n)) body)"
    by auto
  have c: "\<forall>n. extendContext ctx l [x] n = map_option label ((env(x \<mapsto> ?n)) n)"
    using FnExpression.prems(2) by (simp add: extendContext_apply)
  from FnExpression.IH [OF 1 c d u] show ?case .
next
  case (FunExpression l f x body)
  let ?n = "FunExpression l f x body"
  from FunExpression.prems(1,3,4) have
    1: "collectExpressions body (extendContext ctx l [f, x]) (register ?n idx) = Inr idx'"
    and d: "distinct (map label (nodes body))"
    and u: "(v, b) \<in> set (bindings (env(f \<mapsto> ?n, x \<mapsto> ?n)) body)"
    by (auto split: if_splits)
  have c: "\<forall>n. extendContext ctx l [f, x] n = map_option label ((env(f \<mapsto> ?n, x \<mapsto> ?n)) n)"
    using FunExpression.prems(2) by (simp add: extendContext_apply)
  from FunExpression.IH [OF 1 c d u] show ?case .
next
  case (ApplicationExpression l x y)
  from ApplicationExpression.prems(1) obtain idx1 where
    1: "collectExpressions x ctx (register (ApplicationExpression l x y) idx) = Inr idx1"
    and 2: "collectExpressions y ctx idx1 = Inr idx'"
    by (cases "collectExpressions x ctx (register (ApplicationExpression l x y) idx)") auto
  from ApplicationExpression.prems(3) have d: "distinct (map label (nodes x))"
    "distinct (map label (nodes y))" "label ` set (nodes x) \<inter> label ` set (nodes y) = {}"
    by auto
  from ApplicationExpression.prems(4) consider (x) "(v, b) \<in> set (bindings env x)"
    | (y) "(v, b) \<in> set (bindings env y)" by auto
  then show ?case
  proof cases
    case x
    from bindings_is_node [OF x] d(3) have "v \<notin> set (nodes y)" using label_in_nodes by blast
    from collectExpressions_other [OF 2 this]
      ApplicationExpression.IH(1) [OF 1 ApplicationExpression.prems(2) d(1) x]
    show ?thesis by simp
  next
    case y
    from ApplicationExpression.IH(2) [OF 2 ApplicationExpression.prems(2) d(2) y] show ?thesis .
  qed
next
  case (LetExpression l x a body)
  let ?n = "LetExpression l x a body"
  from LetExpression.prems(1) obtain idx1 where
    1: "collectExpressions a ctx (register ?n idx) = Inr idx1"
    and 2: "collectExpressions body (extendContext ctx l [x]) idx1 = Inr idx'"
    by (cases "collectExpressions a ctx (register ?n idx)") auto
  from LetExpression.prems(3) have d: "distinct (map label (nodes a))"
    "distinct (map label (nodes body))" "label ` set (nodes a) \<inter> label ` set (nodes body) = {}"
    by auto
  from LetExpression.prems(4) consider (a) "(v, b) \<in> set (bindings env a)"
    | (body) "(v, b) \<in> set (bindings (env(x \<mapsto> ?n)) body)" by auto
  then show ?case
  proof cases
    case a
    from bindings_is_node [OF a] d(3) have "v \<notin> set (nodes body)" using label_in_nodes by blast
    from collectExpressions_other [OF 2 this] LetExpression.IH(1) [OF 1 LetExpression.prems(2) d(1) a]
    show ?thesis by simp
  next
    case body
    have c: "\<forall>n. extendContext ctx l [x] n = map_option label ((env(x \<mapsto> ?n)) n)"
      using LetExpression.prems(2) by (simp add: extendContext_apply)
    from LetExpression.IH(2) [OF 2 c d(2) body] show ?thesis .
  qed
qed auto

lemma entryId_inject: "entryId c (Str (x @ r)) = entryId c (Str (y @ r)) \<longleftrightarrow> x = y"
  by (simp add: entryId_def)

lemma fst_getOrCreateEntry [simp]: "fst (getOrCreateEntry c k s) = entryId c k"
  by (simp add: getOrCreateEntry_eq)

text \<open>
  Claim C3, as amended. An entry is named by its id, so two references resolve to
  the identical entry when \<^verbatim>\<open>getEntryFromReference\<close> returns the same id and the
  same store. In a tree whose labels are all different and whose scope resolution
  succeeds, let \<open>b\<close> be the binder of a \<^verbatim>\<open>var\<close> node \<open>v\<close>: the innermost
  \<^verbatim>\<open>fn\<close>, \<^verbatim>\<open>fun\<close> or \<^verbatim>\<open>let\<close> node around \<open>v\<close> that binds its name. The label
  recorded for \<open>v\<close> is the label of \<open>b\<close>. When the name of \<open>v\<close> is the variable
  of \<open>b\<close>, the \<^verbatim>\<open>boundVariable\<close> reference to \<open>b\<close> and the \<^verbatim>\<open>variable\<close>
  reference to \<open>v\<close> resolve to the identical entry. Otherwise \<open>b\<close> is a
  \<^verbatim>\<open>fun\<close> node and \<open>v\<close> bears its function name: then it is the
  \<^verbatim>\<open>functionVariable\<close> reference to \<open>b\<close> that resolves to the entry of the
  \<^verbatim>\<open>variable\<close> reference, and the \<^verbatim>\<open>boundVariable\<close> reference to \<open>b\<close> resolves
  to an entry with another id. Entries are memoized: once an entry has been made
  for a category and a key, asking for the same pair in any later state returns
  that entry and makes nothing; and no state of a solve holds two entries with
  one id.
\<close>

theorem references_share_entries:
  "(collectExpressions expression Map.empty emptyIndex = Inr idx \<and>
    distinct (map label (nodes expression)) \<and>
    (v, b) \<in> set (bindings Map.empty expression) \<longrightarrow>
      labelOfvariableDeclaration idx v = Some (Declared (label b)) \<and>
      (variableOf b = nameOf v \<longrightarrow>
         getEntryFromReference idx (BoundVariable b) s = getEntryFromReference idx (Variable v) s) \<and>
      (variableOf b \<noteq> nameOf v \<longrightarrow>
         typeOf b = TFun \<and> nameOf b = nameOf v \<and>
         getEntryFromReference idx (FunctionVariable b) s
           = getEntryFromReference idx (Variable v) s \<and>
         map_sum (\<lambda>e. e) fst (getEntryFromReference idx (BoundVariable b) s)
           \<noteq> map_sum (\<lambda>e. e) fst (getEntryFromReference idx (Variable v) s))) \<and>
   (later (snd (getOrCreateEntry c k s)) s2 \<longrightarrow>
      getOrCreateEntry c k s2 = (fst (getOrCreateEntry c k s), s2)) \<and>
   (later emptySolver s2 \<longrightarrow> distinct (map fst (entries s2)))"
proof (intro conjI impI)
  assume a: "collectExpressions expression Map.empty emptyIndex = Inr idx \<and>
    distinct (map label (nodes expression)) \<and>
    (v, b) \<in> set (bindings Map.empty expression)"
  then have i: "collectExpressions expression Map.empty emptyIndex = Inr idx"
    and d: "distinct (map label (nodes expression))"
    and m: "(v, b) \<in> set (bindings Map.empty expression)"
    by simp_all
  have c: "\<forall>n. (Map.empty :: Context) n = map_option label ((Map.empty :: string \<rightharpoonup> Expression) n)"
    by simp
  from collectExpressions_binder [OF i c d m]
  show lv: "labelOfvariableDeclaration idx v = Some (Declared (label b))" .
  from bindings_binds [OF m] obtain k n where v: "v = VariableExpression k n"
    and bn: "bindsName b n" by auto
  {
    assume "variableOf b = nameOf v"
    with lv v show "getEntryFromReference idx (BoundVariable b) s
        = getEntryFromReference idx (Variable v) s"
      by (simp add: getEntryFromReference_def showBinding_def)
  }
  {
    assume ne: "variableOf b \<noteq> nameOf v"
    with bn v show t: "typeOf b = TFun" and nb: "nameOf b = nameOf v"
      by (auto simp: bindsName_def)
    with lv v show "getEntryFromReference idx (FunctionVariable b) s
        = getEntryFromReference idx (Variable v) s"
      by (simp add: getEntryFromReference_def showBinding_def)
    from ne v have "showField (variableOf b) \<noteq> n"
      using t by (cases b) (auto simp: showField_def split: if_splits)
    then have "entryId ''p'' (Str (showField (variableOf b) @ ''#'' @ showInt (label b)))
        \<noteq> entryId ''p'' (Str (n @ ''#'' @ showInt (label b)))"
      by (simp only: entryId_inject) simp
    with lv v show "map_sum (\<lambda>e. e) fst (getEntryFromReference idx (BoundVariable b) s)
           \<noteq> map_sum (\<lambda>e. e) fst (getEntryFromReference idx (Variable v) s)"
      by (simp add: getEntryFromReference_def showBinding_def showField_def)
  }
next
  assume "later (snd (getOrCreateEntry c k s)) s2"
  then show "getOrCreateEntry c k s2 = (fst (getOrCreateEntry c k s), s2)"
    by (rule later_getOrCreateEntry)
next
  assume "later emptySolver s2"
  from later_extends [OF this] show "distinct (map fst (entries s2))"
    by (simp add: extends_def emptySolver_def)
qed

theorem references_share_entries_witness:
  "(VariableExpression 3 ''x'', FnExpression 2 ''x'' (VariableExpression 3 ''x''))
     \<in> set (bindings Map.empty shadowTree) \<and>
   distinct (map label (nodes shadowTree)) \<and>
   (\<exists>idx. collectExpressions shadowTree Map.empty emptyIndex = Inr idx \<and>
      labelOfvariableDeclaration idx (VariableExpression 3 ''x'') = Some (Declared 2) \<and>
      getEntryFromReference idx (BoundVariable (FnExpression 2 ''x'' (VariableExpression 3 ''x'')))
          emptySolver
        = getEntryFromReference idx (Variable (VariableExpression 3 ''x'')) emptySolver \<and>
      map_sum (\<lambda>e. e) fst
          (getEntryFromReference idx (Variable (VariableExpression 3 ''x'')) emptySolver)
        = Inr ''p(x#2)'') \<and>
   (VariableExpression 2 ''f'', selfTree) \<in> set (bindings Map.empty selfTree) \<and>
   distinct (map label (nodes selfTree)) \<and>
   (\<exists>idx. collectExpressions selfTree Map.empty emptyIndex = Inr idx \<and>
      labelOfvariableDeclaration idx (VariableExpression 2 ''f'') = Some (Declared 1) \<and>
      getEntryFromReference idx (FunctionVariable selfTree) emptySolver
        = getEntryFromReference idx (Variable (VariableExpression 2 ''f'')) emptySolver \<and>
      map_sum (\<lambda>e. e) fst (getEntryFromReference idx (BoundVariable selfTree) emptySolver)
        \<noteq> map_sum (\<lambda>e. e) fst
            (getEntryFromReference idx (Variable (VariableExpression 2 ''f'')) emptySolver) \<and>
      map_sum (\<lambda>e. e) fst
          (getEntryFromReference idx (Variable (VariableExpression 2 ''f'')) emptySolver)
        = Inr ''p(f#1)'' \<and>
      map_sum (\<lambda>e. e) fst (getEntryFromReference idx (BoundVariable selfTree) emptySolver)
        = Inr ''p(x#1)'') \<and>
   (\<exists>s1 s2. defineRules emptyIndex [Rule (Constant (Num 5)) (ExpressionReference sumTree)]
               emptySolver = Inr s1 \<and>
      defineRules emptyIndex
        [Rule (Ref (ExpressionReference sumTree)) (ExpressionReference (NumericConstant 2 1))] s1
        = Inr s2 \<and>
      s1 = snd (getOrCreateEntry ''C'' (Num 1) s1) \<and>
      later (snd (getOrCreateEntry ''C'' (Num 1) s1)) s2 \<and>
      getOrCreateEntry ''C'' (Num 1) s2 = (''C(1)'', s2) \<and>
      later emptySolver s2 \<and>
      map fst (entries s2) = [''C(1)'', ''C(2)''] \<and>
      distinct (map fst (entries s2)))"
proof -
  let ?v = "VariableExpression 3 ''x''"
  let ?b = "FnExpression 2 ''x'' ?v"
  let ?w = "VariableExpression 2 ''f''"
  have m1: "(?v, ?b) \<in> set (bindings Map.empty shadowTree)" by (simp add: shadowTree_def)
  have d1: "distinct (map label (nodes shadowTree))" by (simp add: shadowTree_def)
  have "\<exists>idx. collectExpressions shadowTree Map.empty emptyIndex = Inr idx"
    by (simp add: shadowTree_def run_simps)
  then obtain idx1 where i1: "collectExpressions shadowTree Map.empty emptyIndex = Inr idx1" ..
  note t1 = references_share_entries [of shadowTree idx1 ?v ?b emptySolver,
      THEN conjunct1, rule_format, OF conjI [OF i1 conjI [OF d1 m1]]]
  from t1 have l1: "labelOfvariableDeclaration idx1 ?v = Some (Declared 2)" by simp
  from t1 have e1: "getEntryFromReference idx1 (BoundVariable ?b) emptySolver
      = getEntryFromReference idx1 (Variable ?v) emptySolver" by simp
  from l1 have n1: "map_sum (\<lambda>e. e) fst (getEntryFromReference idx1 (Variable ?v) emptySolver)
      = Inr ''p(x#2)''"
    by (simp add: run_simps)
  have p1: "\<exists>idx. collectExpressions shadowTree Map.empty emptyIndex = Inr idx \<and>
      labelOfvariableDeclaration idx ?v = Some (Declared 2) \<and>
      getEntryFromReference idx (BoundVariable ?b) emptySolver
        = getEntryFromReference idx (Variable ?v) emptySolver \<and>
      map_sum (\<lambda>e. e) fst (getEntryFromReference idx (Variable ?v) emptySolver) = Inr ''p(x#2)''"
    using i1 l1 e1 n1 by (intro exI [of _ idx1] conjI)
  have m2: "(?w, selfTree) \<in> set (bindings Map.empty selfTree)" by (simp add: selfTree_def)
  have d2: "distinct (map label (nodes selfTree))" by (simp add: selfTree_def)
  have "\<exists>idx. collectExpressions selfTree Map.empty emptyIndex = Inr idx"
    by (simp add: selfTree_def run_simps)
  then obtain idx2 where i2: "collectExpressions selfTree Map.empty emptyIndex = Inr idx2" ..
  note t2 = references_share_entries [of selfTree idx2 ?w selfTree emptySolver,
      THEN conjunct1, rule_format, OF conjI [OF i2 conjI [OF d2 m2]]]
  have ne: "variableOf selfTree \<noteq> nameOf ?w" by (simp add: selfTree_def)
  from t2 have l2: "labelOfvariableDeclaration idx2 ?w = Some (Declared 1)"
    by (simp add: selfTree_def)
  from t2 ne have e2: "getEntryFromReference idx2 (FunctionVariable selfTree) emptySolver
      = getEntryFromReference idx2 (Variable ?w) emptySolver"
    and x2: "map_sum (\<lambda>e. e) fst (getEntryFromReference idx2 (BoundVariable selfTree) emptySolver)
      \<noteq> map_sum (\<lambda>e. e) fst (getEntryFromReference idx2 (Variable ?w) emptySolver)"
    by blast+
  from l2 have n2: "map_sum (\<lambda>e. e) fst (getEntryFromReference idx2 (Variable ?w) emptySolver)
      = Inr ''p(f#1)''"
    by (simp add: run_simps)
  have n3: "map_sum (\<lambda>e. e) fst (getEntryFromReference idx2 (BoundVariable selfTree) emptySolver)
      = Inr ''p(x#1)''"
    by (simp add: selfTree_def run_simps)
  have p2: "\<exists>idx. collectExpressions selfTree Map.empty emptyIndex = Inr idx \<and>
      labelOfvariableDeclaration idx ?w = Some (Declared 1) \<and>
      getEntryFromReference idx (FunctionVariable selfTree) emptySolver
        = getEntryFromReference idx (Variable ?w) emptySolver \<and>
      map_sum (\<lambda>e. e) fst (getEntryFromReference idx (BoundVariable selfTree) emptySolver)
        \<noteq> map_sum (\<lambda>e. e) fst (getEntryFromReference idx (Variable ?w) emptySolver) \<and>
      map_sum (\<lambda>e. e) fst (getEntryFromReference idx (Variable ?w) emptySolver) = Inr ''p(f#1)'' \<and>
      map_sum (\<lambda>e. e) fst (getEntryFromReference idx (BoundVariable selfTree) emptySolver)
        = Inr ''p(x#1)''"
    using i2 l2 e2 x2 n2 n3 by (intro exI [of _ idx2] conjI)
  have "\<exists>s1 s2. defineRules emptyIndex [Rule (Constant (Num 5)) (ExpressionReference sumTree)]
               emptySolver = Inr s1 \<and>
      defineRules emptyIndex
        [Rule (Ref (ExpressionReference sumTree)) (ExpressionReference (NumericConstant 2 1))] s1
        = Inr s2 \<and>
      s1 = snd (getOrCreateEntry ''C'' (Num 1) s1) \<and>
      map fst (entries s2) = [''C(1)'', ''C(2)'']"
    by (simp add: sumTree_def run_simps)
  then obtain s1 s2 where s: "defineRules emptyIndex
        [Rule (Constant (Num 5)) (ExpressionReference sumTree)] emptySolver = Inr s1"
    "defineRules emptyIndex
        [Rule (Ref (ExpressionReference sumTree)) (ExpressionReference (NumericConstant 2 1))] s1
        = Inr s2"
    "s1 = snd (getOrCreateEntry ''C'' (Num 1) s1)"
    "map fst (entries s2) = [''C(1)'', ''C(2)'']"
    by (elim exE conjE)
  have la: "later s1 s2" by (rule later_defineRules [OF s(2)])
  with s(3) have lb: "later (snd (getOrCreateEntry ''C'' (Num 1) s1)) s2" by simp
  from later_trans [OF la later_defineRules [OF s(1)]] have lc: "later emptySolver s2" .
  from references_share_entries [of _ _ _ _ s1 "''C''" "Num 1" s2,
      THEN conjunct2, THEN conjunct1, rule_format, OF lb]
  have g: "getOrCreateEntry ''C'' (Num 1) s2 = (''C(1)'', s2)"
    by (simp add: entryId_def showInt_def showNat.simps digit_def)
  from references_share_entries [of _ _ _ _ _ _ _ s2,
      THEN conjunct2, THEN conjunct2, rule_format, OF lc]
  have di: "distinct (map fst (entries s2))" .
  have p3: "\<exists>s1 s2. defineRules emptyIndex [Rule (Constant (Num 5)) (ExpressionReference sumTree)]
               emptySolver = Inr s1 \<and>
      defineRules emptyIndex
        [Rule (Ref (ExpressionReference sumTree)) (ExpressionReference (NumericConstant 2 1))] s1
        = Inr s2 \<and>
      s1 = snd (getOrCreateEntry ''C'' (Num 1) s1) \<and>
      later (snd (getOrCreateEntry ''C'' (Num 1) s1)) s2 \<and>
      getOrCreateEntry ''C'' (Num 1) s2 = (''C(1)'', s2) \<and>
      later emptySolver s2 \<and>
      map fst (entries s2) = [''C(1)'', ''C(2)''] \<and>
      distinct (map fst (entries s2))"
    using s lb g lc di by (intro exI [of _ s1] exI [of _ s2] conjI)
  from m1 d1 p1 m2 d2 p2 p3 show ?thesis by (intro conjI)
qed

text \<open>
  Claim C3 as stated fails for a \<^verbatim>\<open>var\<close> node that names the function of a
  \<^verbatim>\<open>fun\<close> node. In \<^verbatim>\<open>(fun f x => f)\<close> the binder of the \<^verbatim>\<open>var\<close> node 2 is the
  \<^verbatim>\<open>fun\<close> node 1; a rule writing 1 through the \<^verbatim>\<open>variable\<close> reference and a rule
  writing 2 through the \<^verbatim>\<open>boundVariable\<close> reference fill two different entries.
\<close>

theorem references_share_entries_counterexample:
  "solve codeUnitCompare (FunExpression 1 ''f'' ''x'' (VariableExpression 2 ''f''))
     [Rule (Constant (Num 1)) (Variable (VariableExpression 2 ''f'')),
      Rule (Constant (Num 2))
        (BoundVariable (FunExpression 1 ''f'' ''x'' (VariableExpression 2 ''f'')))]
     = Inr [(''p(f#1)'', [Num 1]), (''p(x#1)'', [Num 2])]"
  by (simp add: run_simps drain.simps codeUnitCompare_def)

section \<open>The sequence returned by \<^verbatim>\<open>type\<close>\<close>

lemma collectionOf_register:
  "collectionOf (register e idx) t = collectionOf idx t @ (if typeOf e = t then [e] else [])"
  by (auto simp: collectionOf_def register_def split: option.splits)

lemma collectionOf_labelOf [simp]:
  "collectionOf (idx\<lparr> labelOfvariableDeclaration := m \<rparr>) t = collectionOf idx t"
  by (simp add: collectionOf_def)

lemma collectExpressions_collection:
  "collectExpressions e ctx idx = Inr idx' \<Longrightarrow>
     collectionOf idx' t = collectionOf idx t @ filter (\<lambda>n. typeOf n = t) (nodes e)"
proof (induction e arbitrary: ctx idx idx')
  case (VariableExpression l name)
  then show ?case by (auto simp: collectionOf_register split: option.splits)
next
  case (OperationExpression l oper a b)
  from OperationExpression.prems(1) obtain idx1 where
    1: "collectExpressions a ctx (register (OperationExpression l oper a b) idx) = Inr idx1"
    and 2: "collectExpressions b ctx idx1 = Inr idx'"
    by (cases "collectExpressions a ctx (register (OperationExpression l oper a b) idx)") auto
  from OperationExpression.IH(1) [OF 1] OperationExpression.IH(2) [OF 2]
  show ?case by (simp add: collectionOf_register)
next
  case (IfExpression l c t' e)
  from IfExpression.prems(1) obtain idx1 where
    1: "collectExpressions c ctx (register (IfExpression l c t' e) idx) = Inr idx1"
    by (cases "collectExpressions c ctx (register (IfExpression l c t' e) idx)") auto
  with IfExpression.prems(1) obtain idx2 where
    2: "collectExpressions t' ctx idx1 = Inr idx2" and 3: "collectExpressions e ctx idx2 = Inr idx'"
    by (cases "collectExpressions t' ctx idx1") auto
  from IfExpression.IH(1) [OF 1] IfExpression.IH(2) [OF 2] IfExpression.IH(3) [OF 3]
  show ?case by (simp add: collectionOf_register)
next
  case (FnExpression l x b)
  from FnExpression.IH [of "extendContext ctx l [x]" "register (FnExpression l x b) idx" idx']
    FnExpression.prems
  show ?case by (simp add: collectionOf_register)
next
  case (FunExpression l f x b)
  from FunExpression.IH [of "extendContext ctx l [f, x]" "register (FunExpression l f x b) idx" idx']
    FunExpression.prems
  show ?case by (simp add: collectionOf_register split: if_splits)
next
  case (ApplicationExpression l c a)
  from ApplicationExpression.prems(1) obtain idx1 where
    1: "collectExpressions c ctx (register (ApplicationExpression l c a) idx) = Inr idx1"
    and 2: "collectExpressions a ctx idx1 = Inr idx'"
    by (cases "collectExpressions c ctx (register (ApplicationExpression l c a) idx)") auto
  from ApplicationExpression.IH(1) [OF 1] ApplicationExpression.IH(2) [OF 2]
  show ?case by (simp add: collectionOf_register)
next
  case (LetExpression l x a b)
  from LetExpression.prems(1) obtain idx1 where
    1: "collectExpressions a ctx (register (LetExpression l x a b) idx) = Inr idx1"
    and 2: "collectExpressions b (extendContext ctx l [x]) idx1 = Inr idx'"
    by (cases "collectExpressions a ctx (register (LetExpression l x a b) idx)") auto
  from LetExpression.IH(1) [OF 1] LetExpression.IH(2) [OF 2]
  show ?case by (simp add: collectionOf_register)
qed (auto simp: collectionOf_register)

text \<open>
  Claim C8, as amended. The value returned by \<^verbatim>\<open>type\<close> is a finite sequence
  that can be walked once. The first walk yields, tag by tag in the order in
  which the tags were given, the nodes of that type in the order of the traversal;
  these are exactly the nodes whose type is one of the tags, a node once for
  every time its tag was given. A second walk yields nothing.
\<close>

theorem type_is_single_pass:
  "typeCall expression types = Inr g \<Longrightarrow>
     fst (iterate g) = concat (map (\<lambda>t. filter (\<lambda>n. typeOf n = t) (nodes expression)) types) \<and>
     set (fst (iterate g)) = {n. n \<in> set (nodes expression) \<and> typeOf n \<in> set types} \<and>
     fst (iterate (snd (iterate g))) = []"
proof -
  assume a: "typeCall expression types = Inr g"
  then obtain idx where i: "collectExpressions expression Map.empty emptyIndex = Inr idx"
    and g: "g = getExpressionsOfType idx types"
    by (cases "collectExpressions expression Map.empty emptyIndex") (auto simp: typeCall_def)
  have "collectionOf idx t = filter (\<lambda>n. typeOf n = t) (nodes expression)" for t
    using collectExpressions_collection [OF i, of t] by (simp add: collectionOf_def emptyIndex_def)
  then have 1: "fst (iterate g)
      = concat (map (\<lambda>t. filter (\<lambda>n. typeOf n = t) (nodes expression)) types)"
    unfolding g iterate_def getExpressionsOfType_def collectionOf_def by simp
  have 2: "set (concat (map (\<lambda>t. filter (\<lambda>n. typeOf n = t) (nodes expression)) types))
      = {n. n \<in> set (nodes expression) \<and> typeOf n \<in> set types}"
    by auto
  have 3: "fst (iterate (snd (iterate g))) = []" by (simp add: iterate_def)
  from 1 2 3 show ?thesis by simp
qed

theorem type_is_single_pass_witness:
  "map_sum (\<lambda>e. e) (\<lambda>g. (fst (iterate g), fst (iterate (snd (iterate g)))))
     (typeCall (FnExpression 1 ''x'' (VariableExpression 2 ''x'')) [TVar, TFn, TVar])
     = Inr ([VariableExpression 2 ''x'', FnExpression 1 ''x'' (VariableExpression 2 ''x''),
             VariableExpression 2 ''x''], [])"
proof -
  let ?e = "FnExpression 1 ''x'' (VariableExpression 2 ''x'')"
  have "\<exists>g. typeCall ?e [TVar, TFn, TVar] = Inr g" by (simp add: typeCall_def run_simps)
  then obtain g where g: "typeCall ?e [TVar, TFn, TVar] = Inr g" ..
  from type_is_single_pass [OF g] g show ?thesis by simp
qed

text \<open>
  Claim C8 as stated fails: the sequence is a generator object, and after the
  first walk over \<^verbatim>\<open>type('fn')\<close> for the program \<^verbatim>\<open>(fn x => x)\<close> a second walk
  does not yield the \<^verbatim>\<open>fn\<close> node again.
\<close>

theorem type_is_single_pass_counterexample:
  "map_sum (\<lambda>e. e) (\<lambda>g. (fst (iterate g), fst (iterate (snd (iterate g)))))
     (typeCall (FnExpression 1 ''x'' (VariableExpression 2 ''x'')) [TFn])
     = Inr ([FnExpression 1 ''x'' (VariableExpression 2 ''x'')], [])"
  by (simp add: typeCall_def getExpressionsOfType_def iterate_def run_simps)

section \<open>The order of the result\<close>

lemma mset_insertBy [simp]: "mset (insertBy cmp x ys) = add_mset x (mset ys)"
  by (induction ys) auto

lemma set_insertBy [simp]: "set (insertBy cmp x ys) = insert x (set ys)"
  by (induction ys) auto

lemma mset_sortBy [simp]: "mset (sortBy cmp xs) = mset xs"
  unfolding sortBy_def by (induction xs) auto

lemma sorted_insertBy:
  assumes total: "\<forall>a b. cmp a b \<le> 0 \<or> cmp b a \<le> 0"
    and trans: "\<forall>a b c. cmp a b \<le> 0 \<longrightarrow> cmp b c \<le> 0 \<longrightarrow> cmp a c \<le> 0"
  shows "sorted_wrt (\<lambda>a b. cmp a b \<le> 0) ys \<Longrightarrow> sorted_wrt (\<lambda>a b. cmp a b \<le> 0) (insertBy cmp x ys)"
proof (induction ys)
  case Nil
  then show ?case by simp
next
  case (Cons y ys)
  show ?case
  proof (cases "cmp x y \<le> 0")
    case True
    with Cons.prems trans have "\<forall>z\<in>set ys. cmp x z \<le> 0" by auto
    with True Cons.prems show ?thesis by simp
  next
    case False
    with total have "cmp y x \<le> 0" by blast
    with False Cons show ?thesis by simp
  qed
qed

lemma sorted_sortBy:
  assumes total: "\<forall>a b. cmp a b \<le> 0 \<or> cmp b a \<le> 0"
    and trans: "\<forall>a b c. cmp a b \<le> 0 \<longrightarrow> cmp b c \<le> 0 \<longrightarrow> cmp a c \<le> 0"
  shows "sorted_wrt (\<lambda>a b. cmp a b \<le> 0) (sortBy cmp xs)"
  unfolding sortBy_def
  by (induction xs) (simp_all add: sorted_insertBy [OF total trans])

lemma compareEntries_le:
  "compareEntries localeCompare a b \<le> 0 \<longleftrightarrow> discriminatorLe localeCompare (key a) (key b)"
  by (cases "key a"; cases "key b") (simp_all add: compareEntries_def)

lemma discriminatorLe_total:
  assumes "\<forall>a b. localeCompare a b \<le> 0 \<or> localeCompare b a \<le> 0"
  shows "discriminatorLe localeCompare x y \<or> discriminatorLe localeCompare y x"
  using assms by (cases x; cases y) auto

lemma discriminatorLe_trans:
  assumes "\<forall>a b c. localeCompare a b \<le> 0 \<longrightarrow> localeCompare b c \<le> 0 \<longrightarrow> localeCompare a c \<le> 0"
  shows "discriminatorLe localeCompare x y \<Longrightarrow> discriminatorLe localeCompare y z \<Longrightarrow>
         discriminatorLe localeCompare x z"
proof (cases x; cases y; cases z)
  fix a b c
  assume "x = Str a" "y = Str b" "z = Str c"
    and "discriminatorLe localeCompare x y" "discriminatorLe localeCompare y z"
  with assms show ?thesis by (metis discriminatorLe.simps(4))
qed auto

lemma sorted_numbers_first:
  "sorted_wrt (\<lambda>p q. discriminatorLe localeCompare (f p) (f q)) xs \<Longrightarrow>
     xs = filter (\<lambda>p. isNumber (f p)) xs @ filter (\<lambda>p. \<not> isNumber (f p)) xs"
proof (induction xs)
  case Nil
  then show ?case by simp
next
  case (Cons x xs)
  then have IH: "xs = filter (\<lambda>p. isNumber (f p)) xs @ filter (\<lambda>p. \<not> isNumber (f p)) xs"
    by simp
  show ?case
  proof (cases "isNumber (f x)")
    case True
    with IH show ?thesis by simp
  next
    case False
    then obtain sx where sx: "f x = Str sx" by (cases "f x") auto
    have "\<not> isNumber (f q)" if "q \<in> set xs" for q
    proof -
      from Cons.prems that have "discriminatorLe localeCompare (f x) (f q)" by simp
      with sx show ?thesis by (cases "f q") auto
    qed
    then have "filter (\<lambda>p. isNumber (f p)) xs = []" "filter (\<lambda>p. \<not> isNumber (f p)) xs = xs"
      by (simp_all add: filter_empty_conv filter_id_conv)
    with False show ?thesis by simp
  qed
qed

lemma numberKeys_mem: "n \<in> set (numberKeys ps) \<longleftrightarrow> (\<exists>p\<in>set ps. key (snd p) = Num n)"
  by (induction ps) (auto split: atom.splits)

lemma stringKeys_mem: "x \<in> set (stringKeys ps) \<longleftrightarrow> (\<exists>p\<in>set ps. key (snd p) = Str x)"
  by (induction ps) (auto split: atom.splits)

lemma sorted_numberKeys:
  "sorted_wrt (\<lambda>p q. discriminatorLe localeCompare (key (snd p)) (key (snd q))) ps \<Longrightarrow>
     sorted (numberKeys ps)"
proof (induction ps)
  case Nil
  then show ?case by simp
next
  case (Cons p ps)
  then have s: "sorted (numberKeys ps)" by simp
  show ?case
  proof (cases "key (snd p)")
    case (Num n)
    have "\<forall>m\<in>set (numberKeys ps). n \<le> m"
    proof
      fix m assume "m \<in> set (numberKeys ps)"
      then obtain q where q: "q \<in> set ps" "key (snd q) = Num m"
        by (auto simp: numberKeys_mem)
      from Cons.prems q(1) have "discriminatorLe localeCompare (key (snd p)) (key (snd q))"
        by simp
      with Num q(2) show "n \<le> m" by simp
    qed
    with s Num show ?thesis by simp
  next
    case (Str x)
    with s show ?thesis by simp
  qed
qed

lemma sorted_stringKeys:
  "sorted_wrt (\<lambda>p q. discriminatorLe localeCompare (key (snd p)) (key (snd q))) ps \<Longrightarrow>
     sorted_wrt (\<lambda>a b. localeCompare a b \<le> 0) (stringKeys ps)"
proof (induction ps)
  case Nil
  then show ?case by simp
next
  case (Cons p ps)
  then have s: "sorted_wrt (\<lambda>a b. localeCompare a b \<le> 0) (stringKeys ps)" by simp
  show ?case
  proof (cases "key (snd p)")
    case (Num n)
    with s show ?thesis by simp
  next
    case (Str x)
    have "\<forall>y\<in>set (stringKeys ps). localeCompare x y \<le> 0"
    proof
      fix y assume "y \<in> set (stringKeys ps)"
      then obtain q where q: "q \<in> set ps" "key (snd q) = Str y"
        by (auto simp: stringKeys_mem)
      from Cons.prems q(1) have "discriminatorLe localeCompare (key (snd p)) (key (snd q))"
        by simp
      with Str q(2) show "localeCompare x y \<le> 0" by simp
    qed
    with s Str show ?thesis by simp
  qed
qed

lemma codeUnitCompare_le: "codeUnitCompare a b \<le> 0 \<longleftrightarrow> a \<le> b"
  by (auto simp: codeUnitCompare_def)

lemma collationCompare_le:
  "collationCompare a b \<le> 0 \<longleftrightarrow> map collationWeight a \<le> map collationWeight b"
  by (auto simp: collationCompare_def)

lemma collationCompare_total:
  "\<forall>a b. collationCompare a b \<le> 0 \<or> collationCompare b a \<le> 0"
  unfolding collationCompare_le by (simp add: linear)

lemma collationCompare_trans:
  "\<forall>a b c. collationCompare a b \<le> 0 \<longrightarrow> collationCompare b c \<le> 0 \<longrightarrow>
      collationCompare a c \<le> 0"
  unfolding collationCompare_le by (intro allI impI) (rule order_trans)

lemmas collation_simps = collationCompare_def collationWeight_def

text \<open>
  Claim C6, as amended. For a \<^verbatim>\<open>localeCompare\<close> that is a consistent comparator
  (any two strings are comparable, and the comparison is transitive), the entries
  of the final analysis are those of the store, every entry with a numeric
  discriminator before every entry with a string discriminator, the numeric ones
  ascending by value and the string ones ascending in the order of
  \<^verbatim>\<open>localeCompare\<close>, which is the collation of the host's locale; the string ones
  are in the ascending lexicographic order of their characters' codes when
  \<^verbatim>\<open>localeCompare\<close> is that order. The values of each entry are its data as they
  stand, in the order of insertion.
\<close>

theorem ordered_result:
  assumes total: "\<forall>a b. localeCompare a b \<le> 0 \<or> localeCompare b a \<le> 0"
    and trans: "\<forall>a b c. localeCompare a b \<le> 0 \<longrightarrow> localeCompare b c \<le> 0 \<longrightarrow> localeCompare a c \<le> 0"
  shows "sorted_wrt (\<lambda>p q. discriminatorLe localeCompare (key (snd p)) (key (snd q)))
           (sortedEntries localeCompare s) \<and>
         sortedEntries localeCompare s
           = filter (\<lambda>p. isNumber (key (snd p))) (sortedEntries localeCompare s)
             @ filter (\<lambda>p. \<not> isNumber (key (snd p))) (sortedEntries localeCompare s) \<and>
         sorted (numberKeys (sortedEntries localeCompare s)) \<and>
         sorted_wrt (\<lambda>a b. localeCompare a b \<le> 0) (stringKeys (sortedEntries localeCompare s)) \<and>
         ((\<forall>a b. localeCompare a b \<le> 0 \<longleftrightarrow> a \<le> b) \<longrightarrow>
            sorted (stringKeys (sortedEntries localeCompare s))) \<and>
         mset (sortedEntries localeCompare s) = mset (entries s) \<and>
         analysis localeCompare s
           = map (\<lambda>p. (fst p, data (snd p))) (sortedEntries localeCompare s)"
proof -
  let ?cmp = "\<lambda>p q. compareEntries localeCompare (snd p) (snd q)"
  have t: "\<forall>a b. ?cmp a b \<le> 0 \<or> ?cmp b a \<le> 0"
    using discriminatorLe_total [OF total] by (simp add: compareEntries_le)
  have tr: "\<forall>a b c. ?cmp a b \<le> 0 \<longrightarrow> ?cmp b c \<le> 0 \<longrightarrow> ?cmp a c \<le> 0"
    using discriminatorLe_trans [OF trans] unfolding compareEntries_le by blast
  have "sorted_wrt (\<lambda>a b. ?cmp a b \<le> 0) (sortBy ?cmp (entries s))"
    by (rule sorted_sortBy [OF t tr])
  then have 1: "sorted_wrt (\<lambda>p q. discriminatorLe localeCompare (key (snd p)) (key (snd q)))
           (sortedEntries localeCompare s)"
    by (simp add: sortedEntries_def compareEntries_le)
  from sorted_numbers_first [OF 1]
  have 2: "sortedEntries localeCompare s
           = filter (\<lambda>p. isNumber (key (snd p))) (sortedEntries localeCompare s)
             @ filter (\<lambda>p. \<not> isNumber (key (snd p))) (sortedEntries localeCompare s)" .
  have 3: "mset (sortedEntries localeCompare s) = mset (entries s)"
    by (simp add: sortedEntries_def)
  have 4: "analysis localeCompare s
           = map (\<lambda>p. (fst p, data (snd p))) (sortedEntries localeCompare s)"
    by (simp add: analysis_def case_prod_beta)
  have 5: "sorted (numberKeys (sortedEntries localeCompare s))"
    by (rule sorted_numberKeys [OF 1])
  have 6: "sorted_wrt (\<lambda>a b. localeCompare a b \<le> 0) (stringKeys (sortedEntries localeCompare s))"
    by (rule sorted_stringKeys [OF 1])
  have 7: "(\<forall>a b. localeCompare a b \<le> 0 \<longleftrightarrow> a \<le> b) \<longrightarrow>
            sorted (stringKeys (sortedEntries localeCompare s))"
  proof
    assume l: "\<forall>a b. localeCompare a b \<le> 0 \<longleftrightarrow> a \<le> b"
    from 6 show "sorted (stringKeys (sortedEntries localeCompare s))" by (simp add: l)
  qed
  from 1 2 3 4 5 6 7 show ?thesis by (intro conjI)
qed

theorem ordered_result_witness:
  "(\<exists>s. drained orderTree orderRules = Inr s \<and>
      map fst (entries s) = [''p(x#1)'', ''C(2)'', ''p(f#1)'', ''C(1)''] \<and>
      map (\<lambda>p. (fst p, key (snd p))) (sortedEntries collationCompare s)
        = [(''C(1)'', Num 1), (''C(2)'', Num 2), (''p(f#1)'', Str ''f#1''), (''p(x#1)'', Str ''x#1'')] \<and>
      sorted_wrt (\<lambda>p q. discriminatorLe collationCompare (key (snd p)) (key (snd q)))
        (sortedEntries collationCompare s) \<and>
      sorted (numberKeys (sortedEntries collationCompare s)) \<and>
      sorted_wrt (\<lambda>a b. collationCompare a b \<le> 0) (stringKeys (sortedEntries collationCompare s)) \<and>
      mset (sortedEntries collationCompare s) = mset (entries s) \<and>
      sorted (stringKeys (sortedEntries codeUnitCompare s))) \<and>
   solve collationCompare orderTree orderRules
     = Inr [(''C(1)'', [Num 7]), (''C(2)'', [Num 2, Num 1]), (''p(f#1)'', [Str ''a'']),
            (''p(x#1)'', [Num 2])]"
proof -
  have total: "\<forall>a b. codeUnitCompare a b \<le> 0 \<or> codeUnitCompare b a \<le> 0"
    by (auto simp: codeUnitCompare_le)
  have trans: "\<forall>a b c. codeUnitCompare a b \<le> 0 \<longrightarrow> codeUnitCompare b c \<le> 0 \<longrightarrow>
      codeUnitCompare a c \<le> 0"
    by (auto simp: codeUnitCompare_le)
  have lex: "\<forall>a b. codeUnitCompare a b \<le> 0 \<longleftrightarrow> a \<le> b"
    by (simp add: codeUnitCompare_le)
  have "\<exists>s. drained orderTree orderRules = Inr s \<and>
      map fst (entries s) = [''p(x#1)'', ''C(2)'', ''p(f#1)'', ''C(1)''] \<and>
      map (\<lambda>p. (fst p, key (snd p))) (sortedEntries collationCompare s)
        = [(''C(1)'', Num 1), (''C(2)'', Num 2), (''p(f#1)'', Str ''f#1''), (''p(x#1)'', Str ''x#1'')]"
    by (simp add: orderTree_def orderRules_def run_simps drain.simps collation_simps)
  then obtain s where s: "drained orderTree orderRules = Inr s"
    "map fst (entries s) = [''p(x#1)'', ''C(2)'', ''p(f#1)'', ''C(1)'']"
    "map (\<lambda>p. (fst p, key (snd p))) (sortedEntries collationCompare s)
        = [(''C(1)'', Num 1), (''C(2)'', Num 2), (''p(f#1)'', Str ''f#1''), (''p(x#1)'', Str ''x#1'')]"
    by (elim exE conjE)
  have r: "solve collationCompare orderTree orderRules
     = Inr [(''C(1)'', [Num 7]), (''C(2)'', [Num 2, Num 1]), (''p(f#1)'', [Str ''a'']),
            (''p(x#1)'', [Num 2])]"
    by (simp add: orderTree_def orderRules_def run_simps drain.simps collation_simps)
  note a = ordered_result [OF collationCompare_total collationCompare_trans, of s]
  note b = ordered_result [OF total trans, of s]
  from a have a1: "sorted_wrt (\<lambda>p q. discriminatorLe collationCompare (key (snd p)) (key (snd q)))
        (sortedEntries collationCompare s)"
    by (rule conjunct1)
  from a have a2: "sorted (numberKeys (sortedEntries collationCompare s))"
    by (elim conjE)
  from a have a3: "sorted_wrt (\<lambda>a b. collationCompare a b \<le> 0)
      (stringKeys (sortedEntries collationCompare s))"
    by (elim conjE)
  from a have a4: "mset (sortedEntries collationCompare s) = mset (entries s)"
    by (elim conjE)
  from b have "(\<forall>a b. codeUnitCompare a b \<le> 0 \<longleftrightarrow> a \<le> b) \<longrightarrow>
      sorted (stringKeys (sortedEntries codeUnitCompare s))"
    by (elim conjE)
  with lex have b1: "sorted (stringKeys (sortedEntries codeUnitCompare s))"
    by (elim mp)
  from s r a1 a2 a3 a4 b1 show ?thesis by (intro conjI exI [of _ s])
qed

text \<open>
  Claim C6 as stated fails: the string discriminators are not in lexicographic
  order. In \<^verbatim>\<open>(fn a => (fn a_ => a))\<close> the two binders have the keys \<^verbatim>\<open>a#1\<close> and
  \<^verbatim>\<open>a_#2\<close>; the first is the smaller one character by character, since \<^verbatim>\<open>#\<close>
  has a smaller code than \<^verbatim>\<open>_\<close>, and its entry is made first, but the collation
  puts \<^verbatim>\<open>_\<close> before \<^verbatim>\<open>#\<close> and the analysis lists \<^verbatim>\<open>p(a_#2)\<close> first.
\<close>

theorem ordered_result_counterexample:
  "solve collationCompare collationTree collationRules
     = Inr [(''p(a_#2)'', [Num 2]), (''p(a#1)'', [Num 1])] \<and>
   (\<exists>s. drained collationTree collationRules = Inr s \<and>
      map fst (entries s) = [''p(a#1)'', ''p(a_#2)''] \<and>
      stringKeys (sortedEntries collationCompare s) = [''a_#2'', ''a#1'']) \<and>
   ''a#1'' < ''a_#2'' \<and>
   sorted [''a#1'', ''a_#2'']"
  by (simp add: collationTree_def collationRules_def run_simps drain.simps collation_simps)

section \<open>Every entry is reported\<close>

lemma extends_ids: "extends s s' \<Longrightarrow> fst ` set (entries s) \<subseteq> fst ` set (entries s')"
proof -
  assume "extends s s'"
  then have "prefix (map fst (entries s)) (map fst (entries s'))" by (simp add: extends_def)
  from set_mono_prefix [OF this] show ?thesis by simp
qed

lemma getEntryFromReference_entryOf:
  assumes "getEntryFromReference idx ref s = Inr (i, s')"
  shows "entryOf idx ref = Inr i \<and> i \<in> fst ` set (entries s')"
proof -
  have *: "entryId c k \<in> fst ` set (entries (snd (getOrCreateEntry c k s)))" for c k
    by (simp add: getOrCreateEntry_eq)
  from assms show ?thesis
    unfolding entryOf_def getEntryFromReference_def
    using *
    by (auto simp: getOrCreateEntry_eq split: Reference.splits option.splits if_splits)
qed

lemma getEntriesFromReferences_entryOf:
  "getEntriesFromReferences idx refs s = Inr (is, s') \<Longrightarrow> ref \<in> set refs \<Longrightarrow>
     \<exists>i. entryOf idx ref = Inr i \<and> i \<in> fst ` set (entries s')"
proof (induction refs arbitrary: s "is")
  case Nil
  then show ?case by simp
next
  case (Cons r refs)
  from Cons.prems(1) obtain i s1 where 1: "getEntryFromReference idx r s = Inr (i, s1)"
    by (cases "getEntryFromReference idx r s") auto
  with Cons.prems(1) obtain is' where 2: "getEntriesFromReferences idx refs s1 = Inr (is', s')"
    by (cases "getEntriesFromReferences idx refs s1") auto
  show ?case
  proof (cases "ref = r")
    case True
    from getEntryFromReference_entryOf [OF 1]
      extends_ids [OF extends_getEntriesFromReferences [OF 2]] True
    show ?thesis by auto
  next
    case False
    with Cons.prems(2) have "ref \<in> set refs" by simp
    from Cons.IH [OF 2 this] show ?thesis .
  qed
qed

lemma ids_enactRule [simp]: "map fst (entries (enactRule t s)) = map fst (entries s)"
  by (simp add: enactRule_def Let_def split: prod.splits)

lemma ids_addRule [simp]: "map fst (entries (addRule r i s)) = map fst (entries s)"
  by (simp add: addRule_def)

lemma ids_fold_addRule [simp]: "map fst (entries (fold (addRule r) is s)) = map fst (entries s)"
  by (induction "is" arbitrary: s) simp_all

lemma image_ids: "fst ` set (entries s) = set (map fst (entries s))"
  by simp

lemma ids_created [simp]: "entries (s\<lparr> created := n \<rparr>) = entries s"
  by simp

lemma defineRule_entryOf:
  assumes "defineRule idx rule s = Inr s'" and "ref \<in> set (references rule)"
  shows "\<exists>i. entryOf idx ref = Inr i \<and> i \<in> set (map fst (entries s'))"
proof (cases rule)
  case (Rule l r)
  from assms(1) Rule obtain rhs s1 where 1: "getEntryFromReference idx r s = Inr (rhs, s1)"
    by (cases "getEntryFromReference idx r s") auto
  from getEntryFromReference_entryOf [OF 1]
  have r: "entryOf idx r = Inr rhs" "rhs \<in> set (map fst (entries s1))" by simp_all
  show ?thesis
  proof (cases l)
    case (Constant c)
    with assms(1) Rule 1
    have "s' = enactRule \<lparr> lhs = Fixed [c], rhs = rhs \<rparr> (s1\<lparr> created := Suc (created s1) \<rparr>)"
      by simp
    then have "map fst (entries s') = map fst (entries s1)" by simp
    with r assms(2) Rule Constant show ?thesis by auto
  next
    case (Dynamic f deps)
    with assms(1) Rule 1 obtain ds s2 where 2: "getEntriesFromReferences idx deps s1 = Inr (ds, s2)"
      by (cases "getEntriesFromReferences idx deps s1") auto
    with assms(1) Rule 1 Dynamic have "s' = enactRule \<lparr> lhs = Computed f ds, rhs = rhs \<rparr>
        (fold (addRule (created s2, \<lparr> lhs = Computed f ds, rhs = rhs \<rparr>)) ds
           (s2\<lparr> created := Suc (created s2) \<rparr>))"
      by (simp add: Let_def)
    then have ids: "map fst (entries s') = map fst (entries s2)" by simp
    from extends_ids [OF extends_getEntriesFromReferences [OF 2]] r(2)
    have "rhs \<in> set (map fst (entries s2))" by auto
    with r(1) ids getEntriesFromReferences_entryOf [OF 2] assms(2) Rule Dynamic
    show ?thesis by auto
  next
    case (Ref lref)
    with assms(1) Rule 1 obtain i s2 where 2: "getEntryFromReference idx lref s1 = Inr (i, s2)"
      by (cases "getEntryFromReference idx lref s1") auto
    with assms(1) Rule 1 Ref have "s' = enactRule \<lparr> lhs = Live i, rhs = rhs \<rparr>
        (addRule (created s2, \<lparr> lhs = Live i, rhs = rhs \<rparr>) i (s2\<lparr> created := Suc (created s2) \<rparr>))"
      by (simp add: Let_def)
    then have ids: "map fst (entries s') = map fst (entries s2)" by simp
    from extends_ids [OF extends_getEntryFromReference [OF 2]] r(2)
    have "rhs \<in> set (map fst (entries s2))" by auto
    with r(1) ids getEntryFromReference_entryOf [OF 2] assms(2) Rule Ref
    show ?thesis by auto
  qed
qed

lemma defineRules_entryOf:
  "defineRules idx rs s = Inr s' \<Longrightarrow> rule \<in> set rs \<Longrightarrow> ref \<in> set (references rule) \<Longrightarrow>
     \<exists>i. entryOf idx ref = Inr i \<and> i \<in> set (map fst (entries s'))"
proof (induction rs arbitrary: s)
  case Nil
  then show ?case by simp
next
  case (Cons r rs)
  from Cons.prems(1) obtain s1 where 1: "defineRule idx r s = Inr s1"
    by (cases "defineRule idx r s") auto
  with Cons.prems(1) have 2: "defineRules idx rs s1 = Inr s'" by simp
  show ?case
  proof (cases "rule = r")
    case True
    from defineRule_entryOf [OF 1] Cons.prems(3) True
    obtain i where "entryOf idx ref = Inr i" "i \<in> set (map fst (entries s1))" by blast
    with extends_ids [OF extends_defineRules [OF 2]] show ?thesis by auto
  next
    case False
    with Cons.prems(2) have "rule \<in> set rs" by simp
    from Cons.IH [OF 2 this Cons.prems(3)] show ?thesis .
  qed
qed

lemma keys_analysis:
  "map fst (analysis localeCompare s) = map fst (sortedEntries localeCompare s)"
  by (simp add: analysis_def case_prod_beta)

lemma mset_keys_analysis:
  "mset (map fst (analysis localeCompare s)) = mset (map fst (entries s))"
proof -
  have "mset (sortedEntries localeCompare s) = mset (entries s)" by (simp add: sortedEntries_def)
  then have "mset (map fst (sortedEntries localeCompare s)) = mset (map fst (entries s))"
    by (metis mset_map)
  then show ?thesis by (simp add: keys_analysis)
qed

lemma map_of_analysis:
  assumes "distinct (map fst (entries s))" and "i \<in> set (map fst (entries s))"
  shows "map_of (analysis localeCompare s) i = Some (dataOf s i)"
proof -
  have m: "mset (sortedEntries localeCompare s) = mset (entries s)" by (simp add: sortedEntries_def)
  then have "mset (map fst (sortedEntries localeCompare s)) = mset (map fst (entries s))"
    by (metis mset_map)
  with assms(1) have d: "distinct (map fst (sortedEntries localeCompare s))"
    by (metis mset_eq_imp_distinct_iff)
  from m have "set (sortedEntries localeCompare s) = set (entries s)" by (metis set_mset_mset)
  with d assms(1) have eq: "map_of (sortedEntries localeCompare s) = map_of (entries s)"
    by (simp add: map_of_inject_set)
  have "map_of (analysis localeCompare s) i
      = map_option data (map_of (sortedEntries localeCompare s) i)"
    by (simp add: analysis_def map_of_map)
  also have "\<dots> = map_option data (map_of (entries s) i)" by (simp add: eq)
  finally show ?thesis using assms(2)
    by (cases "map_of (entries s) i") (auto simp: dataOf_def map_of_eq_None_iff)
qed

text \<open>
  Claim C10. When the solve returns, its analysis has exactly one key for every
  entry of the final store, with the data of that entry as its value list (so an
  entry that never received a value is there with the empty list). The final
  store holds every entry of every earlier state of the run, and every reference
  named by a rule, as its right-hand side, its left-hand side or a dependency,
  has its entry among the keys.
\<close>

theorem every_entry_is_reported:
  assumes "collectExpressions expression Map.empty emptyIndex = Inr idx"
    and "drained expression rs = Inr s"
  shows "solve localeCompare expression rs = Inr (analysis localeCompare s) \<and>
     distinct (map fst (analysis localeCompare s)) \<and>
     mset (map fst (analysis localeCompare s)) = mset (map fst (entries s)) \<and>
     (\<forall>i\<in>set (map fst (entries s)). map_of (analysis localeCompare s) i = Some (dataOf s i)) \<and>
     (\<forall>s0. later emptySolver s0 \<and> later s0 s \<longrightarrow>
        set (map fst (entries s0)) \<subseteq> set (map fst (analysis localeCompare s))) \<and>
     (\<forall>rule\<in>set rs. \<forall>ref\<in>set (references rule).
        \<exists>i. entryOf idx ref = Inr i \<and> i \<in> set (map fst (analysis localeCompare s)))"
proof -
  from assms obtain s1 where s1: "defineRules idx rs emptySolver = Inr s1" and s: "s = drain 0 s1"
    by (cases "defineRules idx rs emptySolver") (auto simp: drained_def seeded_def)
  have l: "later emptySolver s"
    unfolding s using later_trans [OF later_drain later_defineRules [OF s1]] .
  from later_extends [OF l] have d: "distinct (map fst (entries s))"
    by (simp add: extends_def emptySolver_def)
  have k: "set (map fst (analysis localeCompare s)) = set (map fst (entries s))"
    using mset_keys_analysis [of localeCompare s] by (metis set_mset_mset)
  have 1: "solve localeCompare expression rs = Inr (analysis localeCompare s)"
    using assms(2) by (simp add: solve_def)
  have 2: "distinct (map fst (analysis localeCompare s))"
    using d mset_keys_analysis [of localeCompare s] by (metis mset_eq_imp_distinct_iff)
  have 3: "\<forall>i\<in>set (map fst (entries s)). map_of (analysis localeCompare s) i = Some (dataOf s i)"
    using map_of_analysis [OF d] by blast
  have 4: "\<forall>s0. later emptySolver s0 \<and> later s0 s \<longrightarrow>
        set (map fst (entries s0)) \<subseteq> set (map fst (analysis localeCompare s))"
  proof (intro allI impI)
    fix s0 assume "later emptySolver s0 \<and> later s0 s"
    then have "extends s0 s" by (simp add: later_extends)
    from extends_ids [OF this] k
    show "set (map fst (entries s0)) \<subseteq> set (map fst (analysis localeCompare s))" by simp
  qed
  have 5: "\<forall>rule\<in>set rs. \<forall>ref\<in>set (references rule).
        \<exists>i. entryOf idx ref = Inr i \<and> i \<in> set (map fst (analysis localeCompare s))"
  proof (intro ballI)
    fix rule ref assume "rule \<in> set rs" "ref \<in> set (references rule)"
    from defineRules_entryOf [OF s1 this]
    obtain i where i: "entryOf idx ref = Inr i" "i \<in> set (map fst (entries s1))" by blast
    from extends_ids [OF extends_drain, of s1 0] i(2) have "i \<in> set (map fst (entries s))"
      unfolding s by auto
    with i(1) k show "\<exists>i. entryOf idx ref = Inr i \<and> i \<in> set (map fst (analysis localeCompare s))"
      by auto
  qed
  from 1 2 mset_keys_analysis [of localeCompare s] 3 4 5 show ?thesis by (intro conjI)
qed

theorem every_entry_is_reported_witness:
  "solve codeUnitCompare sumTree idleRules = Inr [(''C(1)'', []), (''C(2)'', []), (''C(3)'', [])] \<and>
   (\<exists>idx. collectExpressions sumTree Map.empty emptyIndex = Inr idx \<and>
      entryOf idx (ExpressionReference (NumericConstant 3 2)) = Inr ''C(3)'') \<and>
   (\<exists>s. drained sumTree idleRules = Inr s \<and>
      map fst (entries s) = [''C(1)'', ''C(2)'', ''C(3)''] \<and>
      map_of (analysis codeUnitCompare s) ''C(3)'' = Some (dataOf s ''C(3)'') \<and>
      dataOf s ''C(3)'' = [])"
proof -
  have "\<exists>idx. collectExpressions sumTree Map.empty emptyIndex = Inr idx \<and>
      entryOf idx (ExpressionReference (NumericConstant 3 2)) = Inr ''C(3)''"
    by (simp add: sumTree_def entryOf_def run_simps)
  then obtain idx where i: "collectExpressions sumTree Map.empty emptyIndex = Inr idx"
    "entryOf idx (ExpressionReference (NumericConstant 3 2)) = Inr ''C(3)''"
    by (elim exE conjE)
  have "\<exists>s. drained sumTree idleRules = Inr s \<and> map fst (entries s) = [''C(1)'', ''C(2)'', ''C(3)''] \<and>
      dataOf s ''C(3)'' = [] \<and>
      analysis codeUnitCompare s = [(''C(1)'', []), (''C(2)'', []), (''C(3)'', [])]"
    by (simp add: sumTree_def idleRules_def run_simps drain.simps)
  then obtain s where s: "drained sumTree idleRules = Inr s"
    "map fst (entries s) = [''C(1)'', ''C(2)'', ''C(3)'']" "dataOf s ''C(3)'' = []"
    "analysis codeUnitCompare s = [(''C(1)'', []), (''C(2)'', []), (''C(3)'', [])]"
    by (elim exE conjE)
  note t = every_entry_is_reported [OF i(1) s(1), of codeUnitCompare]
  from t have 1: "solve codeUnitCompare sumTree idleRules = Inr (analysis codeUnitCompare s)"
    by (elim conjE)
  from t have "\<forall>i\<in>set (map fst (entries s)).
      map_of (analysis codeUnitCompare s) i = Some (dataOf s i)"
    by (elim conjE)
  with s(2) have 2: "map_of (analysis codeUnitCompare s) ''C(3)'' = Some (dataOf s ''C(3)'')"
    by simp
  from 1 s(4) have 3: "solve codeUnitCompare sumTree idleRules
      = Inr [(''C(1)'', []), (''C(2)'', []), (''C(3)'', [])]" by simp
  from 3 i s 2 show ?thesis by (intro conjI exI [of _ idx] exI [of _ s])
qed

end
